theory Spec2Isabelle
  imports Complex_Main "HOL-Library.Multiset" "HOL-Library.AList"
begin

section \<open>Errors\<close>

text \<open>
  The Python exceptions the modelled code can raise. \<open>ValueError\<close> is what the source
  raises for an unknown symbol, for a malformed code stream and for an impossible request;
  \<open>IndexError\<close> and \<open>AttributeError\<close> are raised by the interpreter itself, and
  \<open>TypeError\<close> by \<open>build_huffman_tree\<close> for a table that is not a dictionary.
\<close>

datatype error = ValueError | IndexError | AttributeError | TypeError

section \<open>Huffman tree nodes (huffman/Huffman.py, class Node)\<close>

text \<open>
  A node has a symbol (\<open>None\<close> for internal nodes), a frequency and two optional
  children. The source tests \<open>node.symbol is not None\<close> to recognise a leaf.
\<close>

datatype 'a Node =
  Node (symbol: "'a option") (frequency: int) (left: "'a Node option") (right: "'a Node option")

section \<open>Single-symbol decoder (decoders/SingleDecoder.py)\<close>

record 'a SingleDecodingResult =
  was_decoded :: bool
  symbol_r :: "'a option"
  length_r :: nat

text \<open>
  The decoder object: the tree and the cached symbol of a root that carries one.
  Its statistics counters are only written, never read by any decision, and are left out.
  Positions and lengths are natural numbers: the speculative decoder calls \<open>decode\<close> at
  its cursor, which starts at 0, plus a predicted codeword length.
\<close>

record 'a SingleDecoder =
  decoding_tree :: "'a Node option"
  single_symbol :: "'a option"

definition SingleDecoder_init :: "'a Node option \<Rightarrow> 'a SingleDecoder" where
  "SingleDecoder_init tree =
     \<lparr>decoding_tree = tree,
      single_symbol = (case tree of None \<Rightarrow> None | Some rnode \<Rightarrow> symbol rnode)\<rparr>"

definition no_decode :: "nat \<Rightarrow> 'a SingleDecodingResult" where
  "no_decode n = \<lparr>was_decoded = False, symbol_r = None, length_r = n\<rparr>"

text \<open>The \<open>for i in range(position, len(data))\<close> loop of \<open>_decode\<close>, over the remaining characters.\<close>

fun decode_walk :: "'a Node \<Rightarrow> string \<Rightarrow> nat \<Rightarrow> 'a SingleDecodingResult" where
  "decode_walk current_node [] bits_consumed = no_decode bits_consumed"
| "decode_walk current_node (b # rest) bits_consumed =
     (if b = CHR ''0'' then
        (case left current_node of
           None \<Rightarrow> no_decode (bits_consumed + 1)
         | Some n \<Rightarrow>
             (case symbol n of
                Some s \<Rightarrow> \<lparr>was_decoded = True, symbol_r = Some s, length_r = bits_consumed + 1\<rparr>
              | None \<Rightarrow> decode_walk n rest (bits_consumed + 1)))
      else if b = CHR ''1'' then
        (case right current_node of
           None \<Rightarrow> no_decode (bits_consumed + 1)
         | Some n \<Rightarrow>
             (case symbol n of
                Some s \<Rightarrow> \<lparr>was_decoded = True, symbol_r = Some s, length_r = bits_consumed + 1\<rparr>
              | None \<Rightarrow> decode_walk n rest (bits_consumed + 1)))
      else no_decode (bits_consumed + 1))"

definition SingleDecoder__decode :: "'a SingleDecoder \<Rightarrow> string \<Rightarrow> nat \<Rightarrow> 'a SingleDecodingResult" where
  "SingleDecoder__decode self data position =
     (if data = [] \<or> position \<ge> length data \<or> decoding_tree self = None then no_decode 0
      else case single_symbol self of
        Some s \<Rightarrow>
          (if position < length data
           then \<lparr>was_decoded = True, symbol_r = Some s, length_r = 1\<rparr>
           else no_decode 0)
      | None \<Rightarrow> decode_walk (the (decoding_tree self)) (drop position data) 0)"

text \<open>\<open>decode\<close> returns what \<open>_decode\<close> returns (it then resets the node cursor and counts).\<close>

definition SingleDecoder_decode :: "'a SingleDecoder \<Rightarrow> string \<Rightarrow> nat \<Rightarrow> 'a SingleDecodingResult" where
  "SingleDecoder_decode self data position = SingleDecoder__decode self data position"

section \<open>Non-speculative decoding (huffman/Huffman.py, HuffmanCode.decode)\<close>

text \<open>
  The bit loop of \<open>HuffmanCode.decode\<close>: \<open>'0'\<close> goes left, every other character goes
  right; a missing child raises \<open>ValueError\<close>; a node with a symbol emits it and restarts
  at the root.
\<close>

fun HuffmanCode_decode_loop :: "'a Node \<Rightarrow> 'a Node \<Rightarrow> string \<Rightarrow> 'a list \<Rightarrow> error + 'a list" where
  "HuffmanCode_decode_loop huffman_tree current_node [] decoded = Inr decoded"
| "HuffmanCode_decode_loop huffman_tree current_node (b # rest) decoded =
     (if b = CHR ''0'' then
        (case left current_node of
           None \<Rightarrow> Inl ValueError
         | Some n \<Rightarrow>
             (case symbol n of
                Some s \<Rightarrow> HuffmanCode_decode_loop huffman_tree huffman_tree rest (decoded @ [s])
              | None \<Rightarrow> HuffmanCode_decode_loop huffman_tree n rest decoded))
      else
        (case right current_node of
           None \<Rightarrow> Inl ValueError
         | Some n \<Rightarrow>
             (case symbol n of
                Some s \<Rightarrow> HuffmanCode_decode_loop huffman_tree huffman_tree rest (decoded @ [s])
              | None \<Rightarrow> HuffmanCode_decode_loop huffman_tree n rest decoded)))"

definition HuffmanCode_decode :: "string \<Rightarrow> 'a Node option \<Rightarrow> error + 'a list" where
  "HuffmanCode_decode encoded_bits huffman_tree =
     (if encoded_bits = [] then Inr []
      else case huffman_tree of
        None \<Rightarrow> Inr []
      | Some rnode \<Rightarrow>
          (case symbol rnode of
             Some s \<Rightarrow> Inr (replicate (length encoded_bits) s)
           | None \<Rightarrow> HuffmanCode_decode_loop rnode rnode encoded_bits []))"

section \<open>Predictors (predictors/*.py)\<close>

text \<open>
  A predictor is an object with internal state and the two methods the decoder calls:
  \<open>implicitly_predict(n)\<close>, which reads the state, and \<open>feed(length)\<close>, which updates it.
\<close>

record 'p Predictor =
  pstate :: 'p
  implicitly_predict :: "'p \<Rightarrow> nat \<Rightarrow> nat list"
  feed :: "'p \<Rightarrow> nat \<Rightarrow> 'p"

definition predictor_predict :: "'p Predictor \<Rightarrow> nat \<Rightarrow> nat list" where
  "predictor_predict P n = implicitly_predict P (pstate P) n"

definition predictor_feed :: "'p Predictor \<Rightarrow> nat \<Rightarrow> 'p Predictor" where
  "predictor_feed P l = P\<lparr>pstate := feed P (pstate P) l\<rparr>"

text \<open>\<open>StaticPredictor\<close>: a fixed vector, \<open>feed\<close> inherited from \<open>BasePredictor\<close> does nothing.\<close>

definition StaticPredictor :: "nat list \<Rightarrow> unit Predictor" where
  "StaticPredictor prediction_vector =
     \<lparr>pstate = (), implicitly_predict = (\<lambda>_ n. take n prediction_vector), feed = (\<lambda>st _. st)\<rparr>"

text \<open>
  \<open>DynamicPredictor\<close>: the state is the context window; the table maps contexts to vectors.
\<close>

definition DynamicPredictor ::
  "(nat list \<rightharpoonup> nat list) \<Rightarrow> nat list \<Rightarrow> nat list \<Rightarrow> (nat list) Predictor" where
  "DynamicPredictor assignment_table initial_context backup_variant =
     \<lparr>pstate = initial_context,
      implicitly_predict = (\<lambda>ctx n. case assignment_table ctx of
                                       Some v \<Rightarrow> take n v
                                     | None \<Rightarrow> take n (sort backup_variant)),
      feed = (\<lambda>ctx current. tl ctx @ [current])\<rparr>"

section \<open>Speculative decoder (decoders/SpeculativeDecoder.py)\<close>

text \<open>
  The decoder object: \<open>w + 1\<close> single decoders on one tree, the width, the predictor, the
  cursor state and the optional chain limit (a positive count when set).
\<close>

record ('a, 'p) SpeculativeDecoder =
  decoders :: "'a SingleDecoder list"
  speculation_width :: nat
  predictor :: "'p Predictor"
  previous :: "'a option"
  current_position :: nat
  chain_length_limit :: "nat option"

definition SpeculativeDecoder_init ::
  "'a Node option \<Rightarrow> nat \<Rightarrow> 'p Predictor \<Rightarrow> nat option \<Rightarrow> ('a, 'p) SpeculativeDecoder" where
  "SpeculativeDecoder_init tree w pred limit =
     \<lparr>decoders = replicate (w + 1) (SingleDecoder_init tree),
      speculation_width = w,
      predictor = pred,
      previous = None,
      current_position = 0,
      chain_length_limit = limit\<rparr>"

text \<open>
  The loop \<open>for i, length in enumerate(lengths)\<close> of \<open>speculate\<close>, filling the dictionary
  \<open>results\<close>. \<open>self._decoders[i]\<close> raises \<open>IndexError\<close> when \<open>i\<close> is past the list.
\<close>

fun attempt_loop ::
  "'a SingleDecoder list \<Rightarrow> string \<Rightarrow> nat \<Rightarrow> (nat \<times> nat) list \<Rightarrow>
   (nat \<rightharpoonup> 'a SingleDecodingResult) \<Rightarrow> error + (nat \<rightharpoonup> 'a SingleDecodingResult)" where
  "attempt_loop ds data position [] results = Inr results"
| "attempt_loop ds data position ((i, len) # rest) results =
     (if position + len < length data then
        (if i < length ds then
           (let res = SingleDecoder_decode (ds ! i) data (position + len)
            in if was_decoded res
               then attempt_loop ds data position rest (results(len \<mapsto> res))
               else attempt_loop ds data position rest results)
         else Inl IndexError)
      else attempt_loop ds data position rest results)"

text \<open>The loop \<open>while current_offset in results\<close>.\<close>

partial_function (option) chain_loop ::
  "(nat \<rightharpoonup> 'a SingleDecodingResult) \<Rightarrow> nat \<Rightarrow> 'a SingleDecodingResult list \<Rightarrow>
   'a SingleDecodingResult list option" where
  "chain_loop results current_offset current_sequence =
     (case results current_offset of
        None \<Rightarrow> Some current_sequence
      | Some result \<Rightarrow>
          chain_loop results (current_offset + length_r result) (current_sequence @ [result]))"

declare chain_loop.simps [code]

text \<open>\<open>if self._chain_length_limit: return decoding_chain[:limit]\<close>; \<open>None\<close> and \<open>0\<close> are falsy.\<close>

definition limit_chain :: "nat option \<Rightarrow> 'b list \<Rightarrow> 'b list" where
  "limit_chain limit decoding_chain =
     (case limit of
        None \<Rightarrow> decoding_chain
      | Some k \<Rightarrow> if k \<noteq> 0 then take k decoding_chain else decoding_chain)"

definition speculate ::
  "('a, 'p) SpeculativeDecoder \<Rightarrow> string \<Rightarrow> nat \<Rightarrow>
   (error + ('a SingleDecodingResult list \<times> nat)) option" where
  "speculate self data position =
     (if position \<ge> length data then Some (Inr ([], 0))
      else
        let speculated_lengths = predictor_predict (predictor self) (speculation_width self);
            lengths = 0 # speculated_lengths
        in case attempt_loop (decoders self) data position (enumerate 0 lengths) Map.empty of
             Inl e \<Rightarrow> Some (Inl e)
           | Inr results \<Rightarrow>
               (case results 0 of
                  None \<Rightarrow> Some (Inr (limit_chain (chain_length_limit self) [], 0))
                | Some r0 \<Rightarrow>
                    (case chain_loop results 0 [] of
                       None \<Rightarrow> None
                     | Some decoding_chain \<Rightarrow>
                         Some (Inr (limit_chain (chain_length_limit self) decoding_chain,
                                    if length_r r0 \<in> set speculated_lengths then 1 else 0)))))"

text \<open>
  The loop \<open>for result in results\<close> of \<open>decode\<close>: append the symbol and feed the predictor.
\<close>

fun commit_loop ::
  "'p Predictor \<Rightarrow> 'a SingleDecodingResult list \<Rightarrow> 'a list \<Rightarrow> 'a list \<times> 'p Predictor" where
  "commit_loop P [] decoded_symbols = (decoded_symbols, P)"
| "commit_loop P (result # rest) decoded_symbols =
     (case symbol_r result of
        Some s \<Rightarrow> commit_loop (predictor_feed P (length_r result)) rest (decoded_symbols @ [s])
      | None \<Rightarrow> commit_loop P rest decoded_symbols)"

text \<open>
  The \<open>while self._current_position < len(data)\<close> loop of \<open>decode\<close>, with the decoder
  object and the five local accumulators passed along. \<open>None\<close> stands for not returning.
\<close>

partial_function (option) decode_loop ::
  "(int, 'p) SpeculativeDecoder \<Rightarrow> string \<Rightarrow> nat \<Rightarrow> nat \<Rightarrow> int list \<Rightarrow> nat list \<Rightarrow> nat list \<Rightarrow>
   (error + ((int, 'p) SpeculativeDecoder \<times> nat \<times> nat \<times> int list \<times> nat list \<times> nat list)) option" where
  "decode_loop self data tries successes decoded_symbols commited_codewords truly_predicted =
     (if current_position self < length data then
        (case speculate self data (current_position self) of
           None \<Rightarrow> None
         | Some (Inl e) \<Rightarrow> Some (Inl e)
         | Some (Inr (results, truly_predicted_local)) \<Rightarrow>
             if results \<noteq> [] then
               (let self1 = (case symbol_r (hd results) of
                               Some s \<Rightarrow> self\<lparr>previous := Some s\<rparr>
                             | None \<Rightarrow> self);
                    fed = commit_loop (predictor self1) results decoded_symbols;
                    total_length = sum_list (map length_r results)
                in decode_loop
                     (self1\<lparr>predictor := snd fed,
                            current_position := current_position self1 + total_length\<rparr>)
                     data
                     (tries + (speculation_width self + 1))
                     (successes + length results)
                     (fst fed)
                     (commited_codewords @ [length results])
                     (truly_predicted @ [truly_predicted_local]))
             else Some (Inr (self, tries + (speculation_width self + 1), successes,
                             decoded_symbols, commited_codewords, truly_predicted)))
      else Some (Inr (self, tries, successes, decoded_symbols, commited_codewords,
                      truly_predicted)))"

declare decode_loop.simps [code]

text \<open>\<open>bytes(decoded_symbols)\<close> raises \<open>ValueError\<close> unless every element is in \<open>range(256)\<close>.\<close>

definition py_bytes :: "int list \<Rightarrow> error + int list" where
  "py_bytes xs = (if \<forall>x \<in> set xs. 0 \<le> x \<and> x < 256 then Inr xs else Inl ValueError)"

text \<open>
  \<open>decode\<close> returns the tuple \<open>(bytes, (successes, tries), commits, truly_guessed)\<close>;
  the model returns the updated decoder with it.
\<close>

definition SpeculativeDecoder_decode ::
  "(int, 'p) SpeculativeDecoder \<Rightarrow> string \<Rightarrow>
   (error + ((int list \<times> (nat \<times> nat) \<times> nat list \<times> nat list) \<times> (int, 'p) SpeculativeDecoder)) option" where
  "SpeculativeDecoder_decode self data =
     (case decode_loop self data 0 0 [] [] [] of
        None \<Rightarrow> None
      | Some (Inl e) \<Rightarrow> Some (Inl e)
      | Some (Inr (self', tries, successes, decoded_symbols, commited_codewords, truly_predicted)) \<Rightarrow>
          (case py_bytes decoded_symbols of
             Inl e \<Rightarrow> Some (Inl e)
           | Inr bs \<Rightarrow>
               Some (Inr ((bs, (successes, tries), commited_codewords, truly_predicted), self'))))"

section \<open>Simple probabilistic scheme (theory/simple/SimpleProbabilisticScheme.py)\<close>

text \<open>
  Two parallel lists. Probabilities are modelled as exact rationals; lengths are Python
  integers.
\<close>

record SimpleProbabilisticScheme =
  outcomes :: "int list"
  probabilities :: "rat list"

text \<open>\<open>list.index\<close>: the first position of an element that is in the list.\<close>

fun list_index :: "'a list \<Rightarrow> 'a \<Rightarrow> nat" where
  "list_index [] x = 0"
| "list_index (y # ys) x = (if y = x then 0 else 1 + list_index ys x)"

text \<open>
  \<open>p(outcome)\<close>: the probability at the outcome's index, \<open>0\<close> outside the support;
  \<open>IndexError\<close> when the probability list is shorter than the index.
\<close>

definition SimpleProbabilisticScheme_p :: "SimpleProbabilisticScheme \<Rightarrow> int \<Rightarrow> error + rat" where
  "SimpleProbabilisticScheme_p self outcome =
     (if outcome \<in> set (outcomes self) then
        (let i = list_index (outcomes self) outcome
         in if i < length (probabilities self) then Inr (probabilities self ! i)
            else Inl IndexError)
      else Inr 0)"

text \<open>The list comprehension \<open>[(o, self.p(o)) for o in self.outcomes]\<close>.\<close>

fun outcomes_and_probabilities ::
  "SimpleProbabilisticScheme \<Rightarrow> int list \<Rightarrow> error + (int \<times> rat) list" where
  "outcomes_and_probabilities self [] = Inr []"
| "outcomes_and_probabilities self (o1 # os) =
     (case SimpleProbabilisticScheme_p self o1 of
        Inl e \<Rightarrow> Inl e
      | Inr pr \<Rightarrow>
          (case outcomes_and_probabilities self os of
             Inl e \<Rightarrow> Inl e
           | Inr rest \<Rightarrow> Inr ((o1, pr) # rest)))"

text \<open>
  \<open>get_top(n)\<close>: \<open>sorted(..., key=lambda x: x[1], reverse=True)\<close> is a stable sort by
  descending probability; \<open>ValueError\<close> when \<open>n\<close> exceeds the number of outcomes.
\<close>

definition SimpleProbabilisticScheme_get_top ::
  "SimpleProbabilisticScheme \<Rightarrow> nat \<Rightarrow> error + int list" where
  "SimpleProbabilisticScheme_get_top self n =
     (case outcomes_and_probabilities self (outcomes self) of
        Inl e \<Rightarrow> Inl e
      | Inr ops \<Rightarrow>
          (let sorted_ops = sort_key (\<lambda>x. - snd x) ops
           in if n > length sorted_ops then Inl ValueError
              else Inr (map fst (take n sorted_ops))))"

section \<open>Simple statistical calculations (theory/simple/SimpleStatisticalCalculations.py)\<close>

text \<open>
  \<open>np.array(l_vec) - l_vec[i]\<close> is numpy arithmetic. For a tuple whose entries all fit the
  platform's default integer, signed 64 bits, the array is \<open>int64\<close> and the subtraction
  wraps around; the entries of the result are \<open>int64\<close> again.
\<close>

definition in_int64 :: "int \<Rightarrow> bool" where
  "in_int64 x \<longleftrightarrow> - (2 ^ 63) \<le> x \<and> x < 2 ^ 63"

definition wrap_int64 :: "int \<Rightarrow> int" where
  "wrap_int64 x = (x + 2 ^ 63) mod 2 ^ 64 - 2 ^ 63"

text \<open>
  \<open>expectation_sorted(w, l_vec)\<close> with its \<open>for i in range(w)\<close> loop. The vector for the
  recursive call is \<open>(np.array(l_vec) - l_vec[i])[i + 1:]\<close>: every later entry, shifted.
  \<open>l_vec[i]\<close> raises \<open>IndexError\<close> past the end of the tuple. The cache does not change
  the value.

  On a tuple with an entry outside the signed 64-bit range numpy leaves \<open>int64\<close>
  arithmetic (the array is \<open>uint64\<close>, \<open>float64\<close> or an object array, and it rounds). What
  the code returns there is not modelled: it is the parameter \<open>beyond_int64\<close>, any
  function.
\<close>

function expectation_sorted ::
    "(SimpleProbabilisticScheme \<Rightarrow> nat \<Rightarrow> int list \<Rightarrow> error + rat) \<Rightarrow>
     SimpleProbabilisticScheme \<Rightarrow> nat \<Rightarrow> int list \<Rightarrow> error + rat"
  and expectation_loop ::
    "(SimpleProbabilisticScheme \<Rightarrow> nat \<Rightarrow> int list \<Rightarrow> error + rat) \<Rightarrow>
     SimpleProbabilisticScheme \<Rightarrow> nat \<Rightarrow> int list \<Rightarrow> nat \<Rightarrow> rat \<Rightarrow> error + rat" where
  "expectation_sorted beyond_int64 scheme w l_vec =
     (if w = 0 then Inr 0
      else if list_all in_int64 l_vec then expectation_loop beyond_int64 scheme w l_vec 0 0
      else beyond_int64 scheme w l_vec)"
| "expectation_loop beyond_int64 scheme w l_vec i res =
     (if i < w then
        (if i < length l_vec then
           (let new_l_vec = drop (i + 1) (map (\<lambda>x. wrap_int64 (x - l_vec ! i)) l_vec)
            in case SimpleProbabilisticScheme_p scheme (l_vec ! i) of
                 Inl e \<Rightarrow> Inl e
               | Inr pr \<Rightarrow>
                   (case expectation_sorted beyond_int64 scheme (w - (i + 1)) new_l_vec of
                      Inl e \<Rightarrow> Inl e
                    | Inr ex \<Rightarrow>
                        expectation_loop beyond_int64 scheme w l_vec (i + 1) (res + pr * (1 + ex))))
         else Inl IndexError)
      else Inr res)"
  by pat_completeness auto
termination
  by (relation "measures [\<lambda>x. case x of Inl (b, s, w, l) \<Rightarrow> w | Inr (b, s, w, l, i, r) \<Rightarrow> w,
                          \<lambda>x. case x of Inl (b, s, w, l) \<Rightarrow> w + 1 | Inr (b, s, w, l, i, r) \<Rightarrow> w - i]")
     auto

declare expectation_sorted.simps [simp del] expectation_loop.simps [simp del]

definition score ::
  "(SimpleProbabilisticScheme \<Rightarrow> nat \<Rightarrow> int list \<Rightarrow> error + rat) \<Rightarrow>
   SimpleProbabilisticScheme \<Rightarrow> nat \<Rightarrow> int list \<Rightarrow> error + rat" where
  "score beyond_int64 scheme w l_vec = expectation_sorted beyond_int64 scheme w (sort l_vec)"

text \<open>
  The recursion as the specification words it, to be compared with the code:
  \<open>drop_and_shift(L, i) = (L[j] - L[i] for j = i+1..w-1 with L[j] > L[i])\<close> and
  \<open>E(w, L) = \<Sum>\<^sub>i p(L[i]) \<cdot> (1 + E(w - i - 1, drop_and_shift(L, i)))\<close>, where \<open>p\<close> and \<open>E\<close>
  on the right are the code's functions.
\<close>

definition drop_and_shift :: "int list \<Rightarrow> nat \<Rightarrow> int list" where
  "drop_and_shift L i = map (\<lambda>x. x - L ! i) (filter (\<lambda>x. x > L ! i) (drop (i + 1) L))"

definition recursion_term ::
  "(SimpleProbabilisticScheme \<Rightarrow> nat \<Rightarrow> int list \<Rightarrow> error + rat) \<Rightarrow>
   SimpleProbabilisticScheme \<Rightarrow> nat \<Rightarrow> int list \<Rightarrow> nat \<Rightarrow> error + rat" where
  "recursion_term beyond_int64 scheme w L i =
     (if i < length L then
        (case SimpleProbabilisticScheme_p scheme (L ! i) of
           Inl e \<Rightarrow> Inl e
         | Inr pr \<Rightarrow>
             (case expectation_sorted beyond_int64 scheme (w - i - 1) (drop_and_shift L i) of
                Inl e \<Rightarrow> Inl e
              | Inr ex \<Rightarrow> Inr (pr * (1 + ex))))
      else Inl IndexError)"

fun sum_terms :: "(error + rat) list \<Rightarrow> error + rat" where
  "sum_terms [] = Inr 0"
| "sum_terms (t # ts) =
     (case t of
        Inl e \<Rightarrow> Inl e
      | Inr v \<Rightarrow> (case sum_terms ts of Inl e \<Rightarrow> Inl e | Inr s \<Rightarrow> Inr (v + s)))"

definition spec_recursion ::
  "(SimpleProbabilisticScheme \<Rightarrow> nat \<Rightarrow> int list \<Rightarrow> error + rat) \<Rightarrow>
   SimpleProbabilisticScheme \<Rightarrow> nat \<Rightarrow> int list \<Rightarrow> error + rat" where
  "spec_recursion beyond_int64 scheme w L =
     sum_terms (map (recursion_term beyond_int64 scheme w L) [0..<w])"

definition scheme_S4 :: SimpleProbabilisticScheme where
  "scheme_S4 = \<lparr>outcomes = [1, 2, 3], probabilities = [1 / 2, 3 / 10, 1 / 5]\<rparr>"

definition scheme_zero_one :: SimpleProbabilisticScheme where
  "scheme_zero_one = \<lparr>outcomes = [0, 1], probabilities = [1 / 2, 1 / 2]\<rparr>"

section \<open>Optimizer (optimizers/SimpleOptimizer.py)\<close>

definition SimpleOptimizer__calculate_score ::
  "(SimpleProbabilisticScheme \<Rightarrow> nat \<Rightarrow> int list \<Rightarrow> error + rat) \<Rightarrow>
   SimpleProbabilisticScheme \<Rightarrow> nat \<Rightarrow> int list \<Rightarrow> error + (rat \<times> int list)" where
  "SimpleOptimizer__calculate_score beyond_int64 scheme w variant =
     (case score beyond_int64 scheme w variant of Inl e \<Rightarrow> Inl e | Inr sc \<Rightarrow> Inr (sc, variant))"

definition SimpleOptimizer__greedy ::
  "(SimpleProbabilisticScheme \<Rightarrow> nat \<Rightarrow> int list \<Rightarrow> error + rat) \<Rightarrow>
   SimpleProbabilisticScheme \<Rightarrow> nat \<Rightarrow> error + (rat \<times> int list)" where
  "SimpleOptimizer__greedy beyond_int64 scheme w =
     (case SimpleProbabilisticScheme_get_top scheme w of
        Inl e \<Rightarrow> Inl e
      | Inr top_w \<Rightarrow> SimpleOptimizer__calculate_score beyond_int64 scheme w (sort top_w))"

text \<open>
  \<open>future_scheme.compact()\<close>: class \<open>SimpleProbabilisticScheme\<close> defines \<open>p\<close>, \<open>get_top\<close>
  and \<open>get_scheme_for_sum\<close> only, so the attribute lookup raises \<open>AttributeError\<close>.
\<close>

definition SimpleProbabilisticScheme_compact ::
  "SimpleProbabilisticScheme \<Rightarrow> error + (int \<times> rat) list" where
  "SimpleProbabilisticScheme_compact self = Inl AttributeError"

text \<open>\<open>priorities[o] += p\<close> on a \<open>defaultdict(float)\<close>, kept in insertion order.\<close>

fun add_priority :: "int \<times> rat \<Rightarrow> (int \<times> rat) list \<Rightarrow> (int \<times> rat) list" where
  "add_priority (o1, pr) [] = [(o1, pr)]"
| "add_priority (o1, pr) ((k, v) # rest) =
     (if k = o1 then (k, v + pr) # rest else (k, v) # add_priority (o1, pr) rest)"

text \<open>
  The loop \<open>for r_candidate in range(1, r + 1)\<close> of \<open>greedy\<close>. \<open>get_scheme_for_sum\<close> is
  floating-point FFT code; it is a parameter here, any function that returns a scheme or
  raises.
\<close>

fun priorities_loop ::
  "(SimpleProbabilisticScheme \<Rightarrow> nat \<Rightarrow> error + SimpleProbabilisticScheme) \<Rightarrow>
   SimpleProbabilisticScheme \<Rightarrow> nat list \<Rightarrow> (int \<times> rat) list \<Rightarrow> error + (int \<times> rat) list" where
  "priorities_loop get_scheme_for_sum scheme [] priorities = Inr priorities"
| "priorities_loop get_scheme_for_sum scheme (r_candidate # rest) priorities =
     (case get_scheme_for_sum scheme r_candidate of
        Inl e \<Rightarrow> Inl e
      | Inr future_scheme \<Rightarrow>
          (case SimpleProbabilisticScheme_compact future_scheme of
             Inl e \<Rightarrow> Inl e
           | Inr ops \<Rightarrow>
               priorities_loop get_scheme_for_sum scheme rest (fold add_priority ops priorities)))"

definition SimpleOptimizer_greedy ::
  "(SimpleProbabilisticScheme \<Rightarrow> nat \<Rightarrow> int list \<Rightarrow> error + rat) \<Rightarrow>
   (SimpleProbabilisticScheme \<Rightarrow> nat \<Rightarrow> error + SimpleProbabilisticScheme) \<Rightarrow>
   SimpleProbabilisticScheme \<Rightarrow> nat \<Rightarrow> nat \<Rightarrow> error + (rat \<times> int list)" where
  "SimpleOptimizer_greedy beyond_int64 get_scheme_for_sum scheme w r =
     (if r = 1 then SimpleOptimizer__greedy beyond_int64 scheme w
      else
        (case priorities_loop get_scheme_for_sum scheme [1..<r + 1] [] of
           Inl e \<Rightarrow> Inl e
         | Inr priorities \<Rightarrow>
             (let sorted_priorities = sort_key (\<lambda>x. - snd x) priorities;
                  variant = sort (map fst (take w sorted_priorities))
              in if w > length variant then Inl ValueError
                 else SimpleOptimizer__calculate_score beyond_int64 scheme w variant)))"

section \<open>Variants generator (optimizers/VariantsGenerator.py)\<close>

text \<open>\<open>_get_j_set(j)\<close>: the sums of exactly \<open>j\<close> terms of \<open>lengths\<close>, as a set.\<close>

fun get_j_set :: "int list \<Rightarrow> nat \<Rightarrow> int set" where
  "get_j_set lengths 0 = {0}"
| "get_j_set lengths (Suc j) =
     (\<Union>l_r \<in> get_j_set lengths j. (\<lambda>l_base. l_base + l_r) ` set lengths)"

text \<open>
  \<open>get_baseline_set(n, j)\<close> calls itself with \<open>j + 1\<close> while the set has fewer than \<open>n\<close>
  elements; nothing else ends the recursion, so not returning is the value \<open>None\<close>.
\<close>

partial_function (option) get_baseline_set :: "int list \<Rightarrow> nat \<Rightarrow> nat \<Rightarrow> int list option" where
  "get_baseline_set lengths n j =
     (let result = fold (\<lambda>k acc. acc \<union> get_j_set lengths k) [1..<j + 1] {}
      in if card result < n then get_baseline_set lengths n (j + 1)
         else Some (take n (sorted_list_of_set result)))"

declare get_baseline_set.simps [code]

section \<open>Encoding (huffman/Huffman.py, HuffmanCode.encode)\<close>

text \<open>
  The code table is a dictionary from symbols to bit strings, kept in insertion order: a
  list of pairs that \<open>map_of\<close> looks up and \<open>AList.update\<close> assigns to.
\<close>

fun encode_loop :: "'a list \<Rightarrow> ('a \<times> string) list \<Rightarrow> string list \<Rightarrow> error + string list" where
  "encode_loop [] huffman_codes encoded_bits = Inr encoded_bits"
| "encode_loop (s # rest) huffman_codes encoded_bits =
     (case map_of huffman_codes s of
        Some code \<Rightarrow> encode_loop rest huffman_codes (encoded_bits @ [code])
      | None \<Rightarrow> Inl ValueError)"

definition HuffmanCode_encode :: "'a list \<Rightarrow> ('a \<times> string) list \<Rightarrow> error + string" where
  "HuffmanCode_encode data huffman_codes =
     (if data = [] \<or> huffman_codes = [] then Inr []
      else case encode_loop data huffman_codes [] of
             Inl e \<Rightarrow> Inl e
           | Inr encoded_bits \<Rightarrow> Inr (concat encoded_bits))"

section \<open>The heap queue of the Python library (\<open>heapq\<close>), as \<open>build_huffman_tree\<close> uses it\<close>

text \<open>
  \<open>heapq\<close> keeps a binary min-heap in a list and compares items with \<open><\<close> only, which
  class \<open>Node\<close> defines as the comparison of the frequencies. The functions below are
  the library's \<open>_siftdown\<close>, \<open>_siftup\<close>, \<open>heapify\<close>, \<open>heappop\<close> and \<open>heappush\<close>.
\<close>

definition node_lt :: "'a Node \<Rightarrow> 'a Node \<Rightarrow> bool" where
  "node_lt self other \<longleftrightarrow> frequency self < frequency other"

function siftdown_loop :: "'a Node list \<Rightarrow> 'a Node \<Rightarrow> nat \<Rightarrow> nat \<Rightarrow> 'a Node list" where
  "siftdown_loop heap newitem startpos pos =
     (if pos > startpos then
        (let parentpos = (pos - 1) div 2;
             parent = heap ! parentpos
         in if node_lt newitem parent
            then siftdown_loop (heap[pos := parent]) newitem startpos parentpos
            else heap[pos := newitem])
      else heap[pos := newitem])"
  by pat_completeness auto
termination
  by (relation "measure (\<lambda>(heap, newitem, startpos, pos). pos)") auto

declare siftdown_loop.simps [simp del]

definition siftdown :: "'a Node list \<Rightarrow> nat \<Rightarrow> nat \<Rightarrow> 'a Node list" where
  "siftdown heap startpos pos = siftdown_loop heap (heap ! pos) startpos pos"

function siftup_loop :: "'a Node list \<Rightarrow> nat \<Rightarrow> 'a Node list \<times> nat" where
  "siftup_loop heap pos =
     (let childpos = 2 * pos + 1
      in if childpos < length heap then
           (let rightpos = childpos + 1;
                smaller = (if rightpos < length heap
                              \<and> \<not> node_lt (heap ! childpos) (heap ! rightpos)
                           then rightpos else childpos)
            in siftup_loop (heap[pos := heap ! smaller]) smaller)
         else (heap, pos))"
  by pat_completeness auto
termination
  by (relation "measure (\<lambda>(heap, pos). length heap - pos)") (auto simp: Let_def)

declare siftup_loop.simps [simp del]

definition siftup :: "'a Node list \<Rightarrow> nat \<Rightarrow> 'a Node list" where
  "siftup heap pos =
     (let newitem = heap ! pos;
          moved = siftup_loop heap pos
      in siftdown ((fst moved)[snd moved := newitem]) pos (snd moved))"

definition heapify :: "'a Node list \<Rightarrow> 'a Node list" where
  "heapify x = fold (\<lambda>i heap. siftup heap i) (rev [0..<length x div 2]) x"

text \<open>\<open>heappop\<close> raises \<open>IndexError\<close> on an empty list.\<close>

definition heappop :: "'a Node list \<Rightarrow> error + ('a Node \<times> 'a Node list)" where
  "heappop heap =
     (if heap = [] then Inl IndexError
      else
        (let lastelt = last heap;
             heap1 = butlast heap
         in if heap1 \<noteq> [] then Inr (heap1 ! 0, siftup (heap1[0 := lastelt]) 0)
            else Inr (lastelt, heap1)))"

definition heappush :: "'a Node list \<Rightarrow> 'a Node \<Rightarrow> 'a Node list" where
  "heappush heap item = siftdown (heap @ [item]) 0 (length heap)"

section \<open>Tree construction and codes (huffman/Huffman.py)\<close>

text \<open>
  The loop \<open>while len(heap) > 1\<close> of \<open>build_huffman_tree\<close>. Not returning is the value
  \<open>None\<close>.
\<close>

partial_function (option) build_loop :: "'a Node list \<Rightarrow> (error + 'a Node list) option" where
  "build_loop heap =
     (if length heap > 1 then
        (case heappop heap of
           Inl e \<Rightarrow> Some (Inl e)
         | Inr (l, heap1) \<Rightarrow>
             (case heappop heap1 of
                Inl e \<Rightarrow> Some (Inl e)
              | Inr (r, heap2) \<Rightarrow>
                  build_loop
                    (heappush heap2 (Node None (frequency l + frequency r) (Some l) (Some r)))))
      else Some (Inr heap))"

declare build_loop.simps [code]

text \<open>
  The frequency table is a dictionary in insertion order: a list of pairs with distinct
  keys. A table that is not a dictionary (\<open>TypeError\<close>) is excluded by the type.
\<close>

definition build_huffman_tree :: "('a \<times> int) list \<Rightarrow> (error + 'a Node option) option" where
  "build_huffman_tree frequency_table =
     (if frequency_table = [] then Some (Inr None)
      else if length frequency_table = 1 then
        Some (Inr (Some (Node (Some (fst (hd frequency_table))) (snd (hd frequency_table)) None None)))
      else
        (case build_loop (heapify (map (\<lambda>(sym, freq). Node (Some sym) freq None None) frequency_table)) of
           None \<Rightarrow> None
         | Some (Inl e) \<Rightarrow> Some (Inl e)
         | Some (Inr heap) \<Rightarrow> Some (Inr (Some (heap ! 0)))))"

text \<open>
  \<open>generate_huffman_codes\<close>: the dictionary is filled in place and returned; a node with a
  symbol stores the code, any other node visits the children it has.
\<close>

fun generate_huffman_codes ::
  "'a Node option \<Rightarrow> string \<Rightarrow> ('a \<times> string) list \<Rightarrow> ('a \<times> string) list" where
  "generate_huffman_codes None current_code huffman_codes = huffman_codes"
| "generate_huffman_codes (Some (Node (Some s) f l r)) current_code huffman_codes =
     AList.update s current_code huffman_codes"
| "generate_huffman_codes (Some (Node None f l r)) current_code huffman_codes =
     (let codes1 = (if l \<noteq> None
                    then generate_huffman_codes l (current_code @ ''0'') huffman_codes
                    else huffman_codes)
      in if r \<noteq> None then generate_huffman_codes r (current_code @ ''1'') codes1 else codes1)"

definition HuffmanCode_generate :: "('a \<times> int) list \<Rightarrow> (error + ('a \<times> string) list) option" where
  "HuffmanCode_generate symbol_frequencies =
     (if symbol_frequencies = [] then Some (Inr [])
      else
        (case build_huffman_tree symbol_frequencies of
           None \<Rightarrow> None
         | Some (Inl e) \<Rightarrow> Some (Inl e)
         | Some (Inr rnode) \<Rightarrow>
             Some (Inr (generate_huffman_codes rnode
                          (if length symbol_frequencies = 1 then ''0'' else []) []))))"

section \<open>Decode tree from codes (huffman/Huffman.py, HuffmanCode.build_decoding_tree)\<close>

text \<open>
  One pass of the loop \<open>for symbol, code in huffman_codes.items()\<close>: walk the code from
  the node, creating \<open>Node(None, 0)\<close> where a child is missing, and store the symbol at the
  node reached. The source updates the nodes in place; the model rebuilds the path.
\<close>

fun insert_code :: "'a Node \<Rightarrow> string \<Rightarrow> 'a \<Rightarrow> 'a Node" where
  "insert_code current [] s =
     Node (Some s) (frequency current) (left current) (right current)"
| "insert_code current (b # rest) s =
     (if b = CHR ''0'' then
        Node (symbol current) (frequency current)
          (Some (insert_code (case left current of None \<Rightarrow> Node None 0 None None | Some n \<Rightarrow> n)
                   rest s))
          (right current)
      else
        Node (symbol current) (frequency current) (left current)
          (Some (insert_code (case right current of None \<Rightarrow> Node None 0 None None | Some n \<Rightarrow> n)
                   rest s)))"

definition build_decoding_tree :: "('a \<times> string) list \<Rightarrow> 'a Node option" where
  "build_decoding_tree huffman_codes =
     (if huffman_codes = [] then None
      else Some (fold (\<lambda>(sym, code) rnode. insert_code rnode code sym) huffman_codes
                   (Node None 0 None None)))"

section \<open>Auxiliary notions for the proofs\<close>

text \<open>
  What the dictionary \<open>results\<close> of \<open>speculate\<close> holds at every moment: successful
  decodes that started inside the string.
\<close>

definition good_results :: "string \<Rightarrow> nat \<Rightarrow> (nat \<rightharpoonup> 'a SingleDecodingResult) \<Rightarrow> bool" where
  "good_results data position results \<longleftrightarrow>
     (\<forall>k r. results k = Some r \<longrightarrow>
        position + k < length data \<and> was_decoded r \<and> 1 \<le> length_r r \<and> symbol_r r \<noteq> None)"

text \<open>A list of results stitched by length from a given offset, each found in \<open>results\<close>.\<close>

fun consecutive :: "(nat \<rightharpoonup> 'a SingleDecodingResult) \<Rightarrow> nat \<Rightarrow> 'a SingleDecodingResult list \<Rightarrow> bool" where
  "consecutive results off [] = True"
| "consecutive results off (r # rs) = (results off = Some r \<and> consecutive results (off + length_r r) rs)"

text \<open>The decoder object after one committing pass of the loop of \<open>decode\<close>.\<close>

definition advance ::
  "('a, 'p) SpeculativeDecoder \<Rightarrow> 'a SingleDecodingResult list \<Rightarrow> 'a list \<Rightarrow> ('a, 'p) SpeculativeDecoder" where
  "advance self results decoded_symbols =
     (let self1 = (case symbol_r (hd results) of
                     Some s \<Rightarrow> self\<lparr>previous := Some s\<rparr>
                   | None \<Rightarrow> self)
      in self1\<lparr>predictor := snd (commit_loop (predictor self1) results decoded_symbols),
               current_position := current_position self1 + sum_list (map length_r results)\<rparr>)"

text \<open>The relation between the accumulators of \<open>decode\<close> that every pass keeps.\<close>

definition counters_consistent :: "nat \<Rightarrow> 'b list \<Rightarrow> nat list \<Rightarrow> nat list \<Rightarrow> bool" where
  "counters_consistent successes output commits truly \<longleftrightarrow>
     successes = sum_list commits \<and> successes = length output \<and>
     length commits = length truly \<and>
     (\<forall>c \<in> set commits. 1 \<le> c) \<and> (\<forall>t \<in> set truly. t = 0 \<or> t = 1)"

text \<open>
  \<open>HuffmanCode.decode\<close> continued from the root on the rest of the string, with the symbols
  decoded so far.
\<close>

definition serial_from :: "'a Node option \<Rightarrow> string \<Rightarrow> 'a list \<Rightarrow> error + 'a list" where
  "serial_from tree bits decoded =
     (case tree of
        None \<Rightarrow> Inr decoded
      | Some rnode \<Rightarrow>
          (case symbol rnode of
             Some s \<Rightarrow> Inr (decoded @ replicate (length bits) s)
           | None \<Rightarrow> HuffmanCode_decode_loop rnode rnode bits decoded))"

text \<open>
  The dictionary after attempts at the offsets \<open>lens\<close> by decoders that all equal \<open>D\<close>.
\<close>

definition attempted ::
  "'a SingleDecoder \<Rightarrow> string \<Rightarrow> nat \<Rightarrow> nat set \<Rightarrow>
   (nat \<rightharpoonup> 'a SingleDecodingResult) \<Rightarrow> (nat \<rightharpoonup> 'a SingleDecodingResult)" where
  "attempted D data position lens results =
     (\<lambda>k. if k \<in> lens \<and> position + k < length data
               \<and> was_decoded (SingleDecoder_decode D data (position + k))
           then Some (SingleDecoder_decode D data (position + k)) else results k)"

text \<open>What the caller of \<open>decode\<close> receives: the returned tuple, or the exception.\<close>

definition returned :: "(error + ('r \<times> 's)) option \<Rightarrow> (error + 'r) option" where
  "returned x = map_option (map_sum id fst) x"

text \<open>The decode tree of the codes a: 0, b: 10, c: 11 (symbols as byte values).\<close>

definition abc_tree :: "int Node option" where
  "abc_tree = Some (Node None 0 (Some (Node (Some 97) 0 None None))
                 (Some (Node None 0 (Some (Node (Some 98) 0 None None))
                                    (Some (Node (Some 99) 0 None None)))))"

text \<open>The summand the code's loop adds at index \<open>i\<close>.\<close>

definition shift_term ::
  "(SimpleProbabilisticScheme \<Rightarrow> nat \<Rightarrow> int list \<Rightarrow> error + rat) \<Rightarrow>
   SimpleProbabilisticScheme \<Rightarrow> nat \<Rightarrow> int list \<Rightarrow> nat \<Rightarrow> error + rat" where
  "shift_term beyond_int64 scheme w L i =
     (if i < length L then
        (case SimpleProbabilisticScheme_p scheme (L ! i) of
           Inl e \<Rightarrow> Inl e
         | Inr pr \<Rightarrow>
             (case expectation_sorted beyond_int64 scheme (w - (i + 1))
                     (drop (i + 1) (map (\<lambda>x. wrap_int64 (x - L ! i)) L)) of
                Inl e \<Rightarrow> Inl e
              | Inr ex \<Rightarrow> Inr (pr * (1 + ex))))
      else Inl IndexError)"

text \<open>
  A tree as \<open>build_huffman_tree\<close> makes them: a node with a symbol has no children, a
  node without one has both.
\<close>

fun proper :: "'a Node \<Rightarrow> bool" where
  "proper (Node (Some s) f l r) = (l = None \<and> r = None)"
| "proper (Node None f (Some a) (Some b)) = (proper a \<and> proper b)"
| "proper (Node None f l r) = False"

text \<open>The symbols of a tree with the edge labels that lead to them.\<close>

fun paths :: "'a Node \<Rightarrow> ('a \<times> string) list" where
  "paths (Node (Some s) f l r) = [(s, [])]"
| "paths (Node None f l r) =
     (case l of None \<Rightarrow> [] | Some a \<Rightarrow> map (\<lambda>(s, p). (s, CHR ''0'' # p)) (paths a))
     @ (case r of None \<Rightarrow> [] | Some b \<Rightarrow> map (\<lambda>(s, p). (s, CHR ''1'' # p)) (paths b))"

text \<open>The symbols at the leaves of all trees in the heap, with multiplicity.\<close>

definition forest_symbols :: "'a Node list \<Rightarrow> 'a multiset" where
  "forest_symbols heap = sum_list (map (\<lambda>t. mset (map fst (paths t))) heap)"

section \<open>Results about the single-symbol decoder\<close>

text \<open>
  C3. With a decoder built on any tree: the result is \<open>{false, none, 0}\<close> whenever the bit
  string is empty, the position is at or past its end, or the tree is null; and on a tree
  whose root carries a symbol the result at a position inside the string is
  \<open>{true, symbol, 1}\<close>, whatever the characters of the string are.
\<close>

theorem single_decoder_edge_cases:
  "(bits = [] \<or> position \<ge> length bits \<or> tree = None \<longrightarrow>
      SingleDecoder_decode (SingleDecoder_init tree) bits position
        = \<lparr>was_decoded = False, symbol_r = None, length_r = 0\<rparr>)
   \<and> (tree = Some rnode \<and> symbol rnode = Some s \<and> position < length bits \<longrightarrow>
      SingleDecoder_decode (SingleDecoder_init tree) bits position
        = \<lparr>was_decoded = True, symbol_r = Some s, length_r = 1\<rparr>)"
  by (auto simp: SingleDecoder_decode_def SingleDecoder__decode_def SingleDecoder_init_def no_decode_def)

theorem single_decoder_edge_cases_witness:
  "SingleDecoder_decode (SingleDecoder_init (None :: int Node option)) ''01'' 0
        = \<lparr>was_decoded = False, symbol_r = None, length_r = 0\<rparr>
   \<and> SingleDecoder_decode (SingleDecoder_init (Some (Node (Some (7::int)) 3 None None))) ''0x1'' 1
        = \<lparr>was_decoded = True, symbol_r = Some 7, length_r = 1\<rparr>"
  using single_decoder_edge_cases [of "''01''" 0 "None :: int Node option" "Node (Some 7) 3 None None" 7]
        single_decoder_edge_cases [of "''0x1''" 1 "Some (Node (Some (7::int)) 3 None None)" "Node (Some 7) 3 None None" 7]
  by simp

section \<open>Results about the speculative decoder\<close>

lemma decode_walk_success:
  "was_decoded (decode_walk n bits c) \<Longrightarrow>
     c < length_r (decode_walk n bits c) \<and> symbol_r (decode_walk n bits c) \<noteq> None"
proof (induction bits arbitrary: n c)
  case Nil
  then show ?case by (simp add: no_decode_def)
next
  case (Cons b rest)
  then show ?case
    by (fastforce simp: no_decode_def split: if_splits option.splits)
qed

lemma single_decode_success:
  "was_decoded (SingleDecoder_decode D data p) \<Longrightarrow>
     1 \<le> length_r (SingleDecoder_decode D data p) \<and> symbol_r (SingleDecoder_decode D data p) \<noteq> None"
  unfolding SingleDecoder_decode_def SingleDecoder__decode_def
  using decode_walk_success [of "the (decoding_tree D)" "drop p data" 0]
  by (auto simp: no_decode_def split: if_splits option.splits)

lemma attempt_loop_good:
  "attempt_loop ds data position xs results = Inr results' \<Longrightarrow>
   good_results data position results \<Longrightarrow> good_results data position results'"
proof (induction xs arbitrary: results)
  case Nil
  then show ?case by simp
next
  case (Cons x xs)
  obtain i len where x: "x = (i, len)" by (cases x)
  show ?case
  proof (cases "position + len < length data \<and> was_decoded (SingleDecoder_decode (ds ! i) data (position + len))")
    case True
    with Cons.prems x have i: "i < length ds"
      and eq: "attempt_loop ds data position xs (results(len \<mapsto> SingleDecoder_decode (ds ! i) data (position + len))) = Inr results'"
      by (auto simp: Let_def split: if_splits)
    have "good_results data position (results(len \<mapsto> SingleDecoder_decode (ds ! i) data (position + len)))"
      using Cons.prems(2) True single_decode_success [of "ds ! i" data "position + len"]
      by (auto simp: good_results_def)
    with Cons.IH eq show ?thesis by blast
  next
    case False
    with Cons.prems x have "attempt_loop ds data position xs results = Inr results'"
      by (auto simp: Let_def split: if_splits)
    with Cons.IH Cons.prems(2) show ?thesis by blast
  qed
qed

lemma consecutive_append:
  "consecutive results off (xs @ ys) \<longleftrightarrow>
     consecutive results off xs \<and> consecutive results (off + sum_list (map length_r xs)) ys"
  by (induction xs arbitrary: off) (auto simp: add.assoc)

lemma consecutive_take: "consecutive results off xs \<Longrightarrow> consecutive results off (take k xs)"
  by (induction xs arbitrary: off k) (auto simp: take_Cons split: nat.splits)

lemma consecutive_ran: "consecutive results off xs \<Longrightarrow> r \<in> set xs \<Longrightarrow> \<exists>k. results k = Some r"
  by (induction xs arbitrary: off) auto

lemma chain_loop_terminates:
  assumes "good_results data position results"
  shows "\<exists>c. chain_loop results off acc = Some (acc @ c) \<and> consecutive results off c
              \<and> (results off \<noteq> None \<longrightarrow> c \<noteq> [])"
proof (induction "length data - (position + off)" arbitrary: off acc rule: less_induct)
  case less
  show ?case
  proof (cases "results off")
    case None
    then show ?thesis by (subst chain_loop.simps) simp
  next
    case (Some r)
    with assms have b: "position + off < length data" and l: "1 \<le> length_r r"
      by (auto simp: good_results_def)
    then have "length data - (position + (off + length_r r)) < length data - (position + off)"
      by arith
    from less [OF this, of "acc @ [r]"] obtain c where
      c: "chain_loop results (off + length_r r) (acc @ [r]) = Some ((acc @ [r]) @ c)"
         "consecutive results (off + length_r r) c" by blast
    have "chain_loop results off acc = Some (acc @ (r # c))"
      by (subst chain_loop.simps) (simp add: Some c)
    with c Some show ?thesis by auto
  qed
qed

lemma speculate_past_end:
  "length data \<le> position \<Longrightarrow> speculate self data position = Some (Inr ([], 0))"
  by (simp add: speculate_def)

lemma speculate_Inl:
  assumes "\<not> length data \<le> position"
   and "attempt_loop (decoders self) data position
          (enumerate 0 (0 # predictor_predict (predictor self) (speculation_width self))) Map.empty = Inl e"
  shows "speculate self data position = Some (Inl e)"
  unfolding speculate_def Let_def
  by (simp only: assms if_False sum.case)

lemma speculate_Inr_None:
  assumes "\<not> length data \<le> position"
   and "attempt_loop (decoders self) data position
          (enumerate 0 (0 # predictor_predict (predictor self) (speculation_width self))) Map.empty = Inr results"
   and "results 0 = None"
  shows "speculate self data position = Some (Inr ([], 0))"
proof -
  have "limit_chain (chain_length_limit self) ([] :: 'a SingleDecodingResult list) = []"
    by (simp add: limit_chain_def split: option.splits)
  then show ?thesis
    unfolding speculate_def Let_def
    by (simp only: assms if_False sum.case option.case)
qed

lemma speculate_Inr_Some:
  assumes "\<not> length data \<le> position"
   and "attempt_loop (decoders self) data position
          (enumerate 0 (0 # predictor_predict (predictor self) (speculation_width self))) Map.empty = Inr results"
   and "results 0 = Some r0"
   and "chain_loop results 0 [] = Some c"
  shows "speculate self data position =
           Some (Inr (limit_chain (chain_length_limit self) c,
                      if length_r r0 \<in> set (predictor_predict (predictor self) (speculation_width self))
                      then 1 else 0))"
  unfolding speculate_def Let_def
  by (simp only: assms if_False sum.case option.case)

lemma decode_loop_done:
  "\<not> current_position self < length data \<Longrightarrow>
   decode_loop self data tries succ dec com tru = Some (Inr (self, tries, succ, dec, com, tru))"
  by (subst decode_loop.simps) (simp only: if_False)

lemma decode_loop_error:
  "current_position self < length data \<Longrightarrow>
   speculate self data (current_position self) = Some (Inl e) \<Longrightarrow>
   decode_loop self data tries succ dec com tru = Some (Inl e)"
  by (subst decode_loop.simps) (simp only: if_True option.case sum.case)

lemma decode_loop_stop:
  "current_position self < length data \<Longrightarrow>
   speculate self data (current_position self) = Some (Inr ([], tg)) \<Longrightarrow>
   decode_loop self data tries succ dec com tru =
     Some (Inr (self, tries + (speculation_width self + 1), succ, dec, com, tru))"
  by (subst decode_loop.simps) (simp only: if_True if_False option.case sum.case prod.case not_False_eq_True simp_thms)

lemma predictor_previous_update: "predictor (self\<lparr>previous := x\<rparr>) = predictor self"
  by simp

lemma decode_loop_step:
  assumes "current_position self < length data"
   and "speculate self data (current_position self) = Some (Inr (chain, tg))"
   and "chain \<noteq> []"
  shows "decode_loop self data tries succ dec com tru =
     decode_loop (advance self chain dec) data (tries + (speculation_width self + 1))
       (succ + length chain) (fst (commit_loop (predictor self) chain dec))
       (com @ [length chain]) (tru @ [tg])"
proof -
  have p: "predictor (case symbol_r (hd chain) of
                     Some s \<Rightarrow> self\<lparr>previous := Some s\<rparr>
                   | None \<Rightarrow> self) = predictor self"
    by (simp split: option.splits)
  show ?thesis
    apply (subst decode_loop.simps)
    apply (simp only: assms if_True option.case sum.case prod.case not_False_eq_True simp_thms Let_def advance_def p)
    done
qed

lemma limit_chain_subset: "set (limit_chain l c) \<subseteq> set c"
  by (auto simp: limit_chain_def split: option.splits dest: in_set_takeD)

lemma limit_chain_nonempty: "c \<noteq> [] \<Longrightarrow> limit_chain l c \<noteq> []"
  by (auto simp: limit_chain_def split: option.splits)

lemma good_results_empty: "good_results data position Map.empty"
  by (simp add: good_results_def)

lemma speculate_total:
  "\<exists>res. speculate self data position = Some res \<and>
     (\<forall>chain tg. res = Inr (chain, tg) \<longrightarrow>
        (tg = 0 \<or> tg = 1) \<and> (\<forall>r \<in> set chain. was_decoded r \<and> 1 \<le> length_r r \<and> symbol_r r \<noteq> None))"
proof (cases "length data \<le> position")
  case True
  from speculate_past_end [OF True, of self] show ?thesis by simp
next
  case False
  define sl where "sl = predictor_predict (predictor self) (speculation_width self)"
  show ?thesis
  proof (cases "attempt_loop (decoders self) data position (enumerate 0 (0 # sl)) Map.empty")
    case (Inl e)
    from speculate_Inl [OF False Inl [unfolded sl_def]] show ?thesis by simp
  next
    case (Inr results)
    from attempt_loop_good [OF Inr good_results_empty]
    have good: "good_results data position results" .
    show ?thesis
    proof (cases "results 0")
      case None
      from speculate_Inr_None [OF False Inr [unfolded sl_def] None] show ?thesis by simp
    next
      case (Some r0)
      from chain_loop_terminates [OF good, of 0 "[]"] have
        "\<exists>c. chain_loop results 0 [] = Some c \<and> consecutive results 0 c"
        by (simp only: append_Nil) blast
      then obtain c where
        c: "chain_loop results 0 [] = Some c" "consecutive results 0 c" by blast
      have "\<forall>r \<in> set (limit_chain (chain_length_limit self) c).
              was_decoded r \<and> 1 \<le> length_r r \<and> symbol_r r \<noteq> None"
      proof
        fix r assume "r \<in> set (limit_chain (chain_length_limit self) c)"
        with limit_chain_subset [of "chain_length_limit self" c] have "r \<in> set c" by blast
        with consecutive_ran [OF c(2)] obtain k where "results k = Some r" by blast
        with good show "was_decoded r \<and> 1 \<le> length_r r \<and> symbol_r r \<noteq> None"
          by (simp add: good_results_def)
      qed
      with speculate_Inr_Some [OF False Inr [unfolded sl_def] Some c(1)] show ?thesis by simp
    qed
  qed
qed

lemma commit_loop_symbols:
  "\<forall>r \<in> set chain. symbol_r r \<noteq> None \<Longrightarrow>
   fst (commit_loop P chain decoded) = decoded @ map (\<lambda>r. the (symbol_r r)) chain"
  by (induction chain arbitrary: P decoded) (auto split: option.splits)

lemma sum_list_lengths_pos:
  "chain \<noteq> [] \<Longrightarrow> \<forall>r \<in> set chain. 1 \<le> length_r r \<Longrightarrow> 1 \<le> sum_list (map length_r chain)"
  by (cases chain) auto

lemma current_position_advance:
  "current_position (advance self chain dec) = current_position self + sum_list (map length_r chain)"
  by (simp add: advance_def Let_def split: option.splits)

lemma decode_loop_total:
  "\<exists>res. decode_loop self data tries succ dec com tru = Some res \<and>
     (\<forall>self' tries' succ' dec' com' tru'.
        res = Inr (self', tries', succ', dec', com', tru') \<longrightarrow>
        counters_consistent succ dec com tru \<longrightarrow> counters_consistent succ' dec' com' tru')"
proof (induction "length data - current_position self"
         arbitrary: self tries succ dec com tru rule: less_induct)
  case less
  show ?case
  proof (cases "current_position self < length data")
    case False
    from decode_loop_done [OF False] show ?thesis by simp
  next
    case True
    from speculate_total [of self data "current_position self"] obtain res where
      res: "speculate self data (current_position self) = Some res"
      and props: "\<And>chain tg. res = Inr (chain, tg) \<Longrightarrow>
            (tg = 0 \<or> tg = 1) \<and> (\<forall>r \<in> set chain. was_decoded r \<and> 1 \<le> length_r r \<and> symbol_r r \<noteq> None)"
      by blast
    show ?thesis
    proof (cases res)
      case (Inl e)
      from decode_loop_error [OF True res [unfolded Inl]] show ?thesis by simp
    next
      case (Inr ct)
      obtain chain tg where ct: "ct = (chain, tg)" by (cases ct)
      note sp = res [unfolded Inr ct]
      show ?thesis
      proof (cases "chain = []")
        case True
        from decode_loop_stop [OF \<open>current_position self < length data\<close> sp [unfolded True]]
        show ?thesis by simp
      next
        case False
        from props [of chain tg] Inr ct have tg: "tg = 0 \<or> tg = 1"
          and ch: "\<forall>r \<in> set chain. was_decoded r \<and> 1 \<le> length_r r \<and> symbol_r r \<noteq> None"
          by blast+
        from sum_list_lengths_pos [OF False] ch have "1 \<le> sum_list (map length_r chain)" by blast
        with True have "length data - current_position (advance self chain dec)
                          < length data - current_position self"
          by (simp add: current_position_advance)
        from less [OF this, of "tries + (speculation_width self + 1)" "succ + length chain"
                     "fst (commit_loop (predictor self) chain dec)" "com @ [length chain]" "tru @ [tg]"]
        obtain res' where
          r1: "decode_loop (advance self chain dec) data (tries + (speculation_width self + 1))
                 (succ + length chain) (fst (commit_loop (predictor self) chain dec))
                 (com @ [length chain]) (tru @ [tg]) = Some res'"
          and r2: "\<And>self' tries' succ' dec' com' tru'.
             res' = Inr (self', tries', succ', dec', com', tru') \<Longrightarrow>
             counters_consistent (succ + length chain) (fst (commit_loop (predictor self) chain dec))
                (com @ [length chain]) (tru @ [tg]) \<Longrightarrow>
             counters_consistent succ' dec' com' tru'"
          by blast
        have eq: "decode_loop self data tries succ dec com tru = Some res'"
          using decode_loop_step [OF True sp False] r1 by simp
        have fed_eq: "fst (commit_loop (predictor self) chain dec) = dec @ map (\<lambda>r. the (symbol_r r)) chain"
          using ch by (intro commit_loop_symbols) blast
        have step: "counters_consistent succ dec com tru \<Longrightarrow>
             counters_consistent (succ + length chain) (fst (commit_loop (predictor self) chain dec))
               (com @ [length chain]) (tru @ [tg])"
          using False tg unfolding counters_consistent_def fed_eq
          by (auto simp: Suc_le_eq)
        from eq r2 step show ?thesis by blast
      qed
    qed
  qed
qed

lemma HuffmanCode_decode_serial: "HuffmanCode_decode bits tree = serial_from tree bits []"
  by (cases bits) (auto simp: HuffmanCode_decode_def serial_from_def split: option.splits)

lemma serial_from_Nil: "serial_from tree [] decoded = Inr decoded"
  by (simp add: serial_from_def split: option.splits)

lemma walk_serial:
  assumes "set bits \<subseteq> {CHR ''0'', CHR ''1''}"
  shows "(was_decoded (decode_walk cur bits c) \<longrightarrow>
            c < length_r (decode_walk cur bits c) \<and>
            length_r (decode_walk cur bits c) - c \<le> length bits \<and>
            (\<exists>s. symbol_r (decode_walk cur bits c) = Some s \<and>
                 HuffmanCode_decode_loop rnode cur bits decoded =
                 HuffmanCode_decode_loop rnode rnode
                   (drop (length_r (decode_walk cur bits c) - c) bits) (decoded @ [s])))
       \<and> (\<not> was_decoded (decode_walk cur bits c) \<longrightarrow>
            HuffmanCode_decode_loop rnode cur bits decoded = Inl ValueError \<or>
            HuffmanCode_decode_loop rnode cur bits decoded = Inr decoded)"
  using assms
proof (induction bits arbitrary: cur c)
  case Nil
  then show ?case by (simp add: no_decode_def)
next
  case (Cons b rest)
  from Cons.prems have b: "b = CHR ''0'' \<or> b = CHR ''1''" and rest: "set rest \<subseteq> {CHR ''0'', CHR ''1''}"
    by auto
  define child where "child = (if b = CHR ''0'' then left cur else right cur)"
  show ?case
  proof (cases child)
    case None
    with b show ?thesis by (auto simp: child_def no_decode_def)
  next
    case (Some n)
    show ?thesis
    proof (cases "symbol n")
      case (Some s)
      with \<open>child = Some n\<close> b show ?thesis by (auto simp: child_def)
    next
      case None
      have w: "decode_walk cur (b # rest) c = decode_walk n rest (c + 1)"
        using \<open>child = Some n\<close> None b by (auto simp: child_def)
      have h: "HuffmanCode_decode_loop rnode cur (b # rest) decoded = HuffmanCode_decode_loop rnode n rest decoded"
        using \<open>child = Some n\<close> None b by (auto simp: child_def)
      from Cons.IH [OF rest, of n "c + 1"] show ?thesis
        unfolding w h
        by (auto simp: Suc_diff_Suc drop_Cons' split: if_splits)
    qed
  qed
qed

lemma single_step:
  fixes tree :: "'a Node option"
  assumes bits: "set data \<subseteq> {CHR ''0'', CHR ''1''}" and pos: "position < length data"
  shows "(was_decoded (SingleDecoder_decode (SingleDecoder_init tree) data position) \<longrightarrow>
           position + length_r (SingleDecoder_decode (SingleDecoder_init tree) data position) \<le> length data \<and>
           (\<exists>s. symbol_r (SingleDecoder_decode (SingleDecoder_init tree) data position) = Some s \<and>
                serial_from tree (drop position data) decoded =
                serial_from tree
                  (drop (position + length_r (SingleDecoder_decode (SingleDecoder_init tree) data position)) data)
                  (decoded @ [s])))
     \<and> (\<not> was_decoded (SingleDecoder_decode (SingleDecoder_init tree) data position) \<longrightarrow>
           serial_from tree (drop position data) decoded = Inl ValueError \<or>
           serial_from tree (drop position data) decoded = Inr decoded)"
proof (cases tree)
  case None
  then show ?thesis
    by (simp add: SingleDecoder_decode_def SingleDecoder__decode_def SingleDecoder_init_def
          no_decode_def serial_from_def)
next
  case (Some rnode)
  show ?thesis
  proof (cases "symbol rnode")
    case (Some s)
    have r: "SingleDecoder_decode (SingleDecoder_init (Some rnode)) data position
               = \<lparr>was_decoded = True, symbol_r = Some s, length_r = 1\<rparr>"
      using pos \<open>tree = Some rnode\<close> Some
      by (auto simp: SingleDecoder_decode_def SingleDecoder__decode_def SingleDecoder_init_def)
    have "replicate (length data - position) s = s # replicate (length data - (position + 1)) s"
      using pos by (simp add: Suc_diff_Suc flip: replicate_Suc)
    then show ?thesis
      using pos \<open>tree = Some rnode\<close> Some by (simp add: r serial_from_def)
  next
    case None
    have r: "SingleDecoder_decode (SingleDecoder_init (Some rnode)) data position
               = decode_walk rnode (drop position data) 0"
      using pos \<open>tree = Some rnode\<close> None
      by (auto simp: SingleDecoder_decode_def SingleDecoder__decode_def SingleDecoder_init_def)
    have sf: "\<And>bs d. serial_from tree bs d = HuffmanCode_decode_loop rnode rnode bs d"
      using \<open>tree = Some rnode\<close> None by (simp add: serial_from_def)
    have "set (drop position data) \<subseteq> {CHR ''0'', CHR ''1''}"
      using bits set_drop_subset [of position data] by blast
    from walk_serial [OF this, of rnode 0 rnode decoded] show ?thesis
      unfolding \<open>tree = Some rnode\<close> r sf [unfolded \<open>tree = Some rnode\<close>] by (auto simp: add.commute)
  qed
qed

lemma attempted_empty: "attempted D data position {} results = results"
  by (simp add: attempted_def)

lemma attempted_insert_hit:
  "position + len < length data \<Longrightarrow> was_decoded (SingleDecoder_decode D data (position + len)) \<Longrightarrow>
   attempted D data position lens (results(len \<mapsto> SingleDecoder_decode D data (position + len)))
     = attempted D data position (insert len lens) results"
  by (auto simp: attempted_def fun_eq_iff)

lemma attempted_insert_miss:
  "\<not> (position + len < length data \<and> was_decoded (SingleDecoder_decode D data (position + len))) \<Longrightarrow>
   attempted D data position lens results = attempted D data position (insert len lens) results"
  by (auto simp: attempted_def fun_eq_iff)

lemma attempt_loop_closed:
  assumes "\<forall>i < length ds. ds ! i = D" and "\<forall>x \<in> set xs. fst x < length ds"
  shows "attempt_loop ds data position xs results
           = Inr (attempted D data position (snd ` set xs) results)"
  using assms(2)
proof (induction xs arbitrary: results)
  case Nil
  then show ?case by (simp add: attempted_empty)
next
  case (Cons x xs)
  obtain i len where x: "x = (i, len)" by (cases x)
  from Cons.prems x have i: "i < length ds" and rest: "\<forall>x \<in> set xs. fst x < length ds" by auto
  from assms(1) i have D: "ds ! i = D" by blast
  show ?case
  proof (cases "position + len < length data \<and> was_decoded (SingleDecoder_decode D data (position + len))")
    case True
    then have "attempt_loop ds data position (x # xs) results =
               attempt_loop ds data position xs (results(len \<mapsto> SingleDecoder_decode D data (position + len)))"
      using i D by (simp add: x Let_def)
    also have "\<dots> = Inr (attempted D data position (snd ` set xs)
                          (results(len \<mapsto> SingleDecoder_decode D data (position + len))))"
      by (rule Cons.IH [OF rest])
    also have "\<dots> = Inr (attempted D data position (snd ` set (x # xs)) results)"
      using True by (simp add: x attempted_insert_hit)
    finally show ?thesis .
  next
    case False
    then have "attempt_loop ds data position (x # xs) results = attempt_loop ds data position xs results"
      using i D by (auto simp: x Let_def)
    also have "\<dots> = Inr (attempted D data position (snd ` set xs) results)"
      by (rule Cons.IH [OF rest])
    also have "\<dots> = Inr (attempted D data position (snd ` set (x # xs)) results)"
      using attempted_insert_miss [OF False] by (simp add: x)
    finally show ?thesis .
  qed
qed

lemma enumerate_indices: "x \<in> set (enumerate n ys) \<Longrightarrow> fst x < n + length ys"
  by (cases x) (auto simp: in_set_enumerate_eq)

lemma enumerate_values: "snd ` set (enumerate n ys) = set ys"
proof -
  have "snd ` set (enumerate n ys) = set (map snd (enumerate n ys))" by (simp only: set_map)
  then show ?thesis by (simp only: map_snd_enumerate)
qed

lemma chain_serial:
  fixes tree :: "'a Node option"
  assumes bits: "set data \<subseteq> {CHR ''0'', CHR ''1''}"
    and R: "\<forall>k r. R k = Some r \<longrightarrow> position + k < length data \<and> was_decoded r \<and>
                 r = SingleDecoder_decode (SingleDecoder_init tree) data (position + k)"
  shows "consecutive R off c \<Longrightarrow>
         position + off + sum_list (map length_r c) \<le> length data \<or> c = []"
    and "consecutive R off c \<Longrightarrow> \<forall>r \<in> set c. symbol_r r \<noteq> None"
    and "consecutive R off c \<Longrightarrow>
         serial_from tree (drop (position + off) data) decoded =
         serial_from tree (drop (position + off + sum_list (map length_r c)) data)
           (decoded @ map (\<lambda>r. the (symbol_r r)) c)"
proof -
  have all: "consecutive R off c \<Longrightarrow>
         (position + off + sum_list (map length_r c) \<le> length data \<or> c = []) \<and>
         (\<forall>r \<in> set c. symbol_r r \<noteq> None) \<and>
         serial_from tree (drop (position + off) data) decoded =
         serial_from tree (drop (position + off + sum_list (map length_r c)) data)
           (decoded @ map (\<lambda>r. the (symbol_r r)) c)"
  proof (induction c arbitrary: off decoded)
    case Nil
    then show ?case by simp
  next
    case (Cons r rs)
    from Cons.prems have Rr: "R off = Some r" and rest: "consecutive R (off + length_r r) rs" by auto
    from R Rr have p: "position + off < length data" and wd: "was_decoded r"
      and r: "r = SingleDecoder_decode (SingleDecoder_init tree) data (position + off)" by blast+
    from single_step [OF bits p, of tree decoded] wd r
    obtain s where le: "position + off + length_r r \<le> length data" and s: "symbol_r r = Some s"
      and eq: "serial_from tree (drop (position + off) data) decoded =
               serial_from tree (drop (position + off + length_r r) data) (decoded @ [s])"
      by auto
    from Cons.IH [OF rest, of "decoded @ [s]"]
    have ih1: "position + (off + length_r r) + sum_list (map length_r rs) \<le> length data \<or> rs = []"
      and ih2: "\<forall>r \<in> set rs. symbol_r r \<noteq> None"
      and ih3: "serial_from tree (drop (position + (off + length_r r)) data) (decoded @ [s]) =
           serial_from tree (drop (position + (off + length_r r) + sum_list (map length_r rs)) data)
             ((decoded @ [s]) @ map (\<lambda>r. the (symbol_r r)) rs)"
      by blast+
    have "position + off + sum_list (map length_r (r # rs)) \<le> length data"
      using ih1 le by (auto simp: add.assoc)
    moreover have "\<forall>x \<in> set (r # rs). symbol_r x \<noteq> None" using ih2 s by simp
    moreover have "serial_from tree (drop (position + off) data) decoded =
         serial_from tree (drop (position + off + sum_list (map length_r (r # rs))) data)
           (decoded @ map (\<lambda>r. the (symbol_r r)) (r # rs))"
      using eq ih3 s by (simp add: add.assoc)
    ultimately show ?case by blast
  qed
  from all show "consecutive R off c \<Longrightarrow>
         position + off + sum_list (map length_r c) \<le> length data \<or> c = []" by blast
  from all show "consecutive R off c \<Longrightarrow> \<forall>r \<in> set c. symbol_r r \<noteq> None" by blast
  from all show "consecutive R off c \<Longrightarrow>
         serial_from tree (drop (position + off) data) decoded =
         serial_from tree (drop (position + off + sum_list (map length_r c)) data)
           (decoded @ map (\<lambda>r. the (symbol_r r)) c)" by blast
qed

lemma commit_loop_keeps_methods:
  "implicitly_predict (snd (commit_loop P chain decoded)) = implicitly_predict P"
  by (induction chain arbitrary: P decoded) (auto simp: predictor_feed_def split: option.splits)

lemma advance_fields:
  "decoders (advance self chain dec) = decoders self"
  "speculation_width (advance self chain dec) = speculation_width self"
  "chain_length_limit (advance self chain dec) = chain_length_limit self"
  "implicitly_predict (predictor (advance self chain dec)) = implicitly_predict (predictor self)"
  by (simp_all add: advance_def Let_def commit_loop_keeps_methods split: option.splits)

lemma consecutive_limit: "consecutive R off c \<Longrightarrow> consecutive R off (limit_chain l c)"
  by (auto simp: limit_chain_def consecutive_take split: option.splits)

lemma speculate_uniform:
  fixes self :: "('a, 'p) SpeculativeDecoder"
  assumes pos: "position < length data"
    and ds: "decoders self = replicate (speculation_width self + 1) (SingleDecoder_init tree)"
    and contract: "\<forall>st n. length (implicitly_predict (predictor self) st n) \<le> n"
  shows "\<exists>R c tg. speculate self data position = Some (Inr (limit_chain (chain_length_limit self) c, tg))
           \<and> consecutive R 0 c
           \<and> good_results data position R
           \<and> (\<forall>k r. R k = Some r \<longrightarrow> position + k < length data \<and> was_decoded r \<and>
                 r = SingleDecoder_decode (SingleDecoder_init tree) data (position + k))
           \<and> (c = [] \<longleftrightarrow> \<not> was_decoded (SingleDecoder_decode (SingleDecoder_init tree) data position))"
proof -
  define D where "D = SingleDecoder_init tree"
  define sl where "sl = predictor_predict (predictor self) (speculation_width self)"
  define R where "R = attempted D data position (set (0 # sl)) Map.empty"
  have np: "\<not> length data \<le> position" using pos by simp
  have len: "length sl \<le> speculation_width self"
    using contract by (simp add: sl_def predictor_predict_def)
  have uni: "\<forall>i < length (decoders self). decoders self ! i = D"
    unfolding ds D_def by (auto simp del: replicate.simps)
  have idx: "\<forall>x \<in> set (enumerate 0 (0 # sl)). fst x < length (decoders self)"
  proof
    fix x assume "x \<in> set (enumerate 0 (0 # sl))"
    from enumerate_indices [OF this] len show "fst x < length (decoders self)"
      by (simp add: ds)
  qed
  have al: "attempt_loop (decoders self) data position (enumerate 0 (0 # sl)) Map.empty = Inr R"
    unfolding R_def using attempt_loop_closed [OF uni idx, of data position Map.empty]
    by (simp only: enumerate_values)
  from attempt_loop_good [OF al good_results_empty] have good: "good_results data position R" .
  have char: "\<forall>k r. R k = Some r \<longrightarrow> position + k < length data \<and> was_decoded r \<and>
                 r = SingleDecoder_decode (SingleDecoder_init tree) data (position + k)"
    by (auto simp: R_def attempted_def D_def split: if_splits)
  show ?thesis
  proof (cases "was_decoded (SingleDecoder_decode (SingleDecoder_init tree) data position)")
    case False
    then have R0: "R 0 = None" by (simp add: R_def attempted_def D_def)
    from speculate_Inr_None [OF np al [unfolded sl_def] R0]
    have "speculate self data position = Some (Inr (limit_chain (chain_length_limit self) [], 0))"
      by (simp add: limit_chain_def split: option.splits)
    with good char False show ?thesis
      by (intro exI [of _ R] exI [of _ "[]"] exI [of _ 0]) simp
  next
    case True
    with pos have R0: "R 0 = Some (SingleDecoder_decode (SingleDecoder_init tree) data position)"
      by (simp add: R_def attempted_def D_def)
    from chain_loop_terminates [OF good, of 0 "[]"] R0 have
      "\<exists>c. chain_loop R 0 [] = Some c \<and> consecutive R 0 c \<and> c \<noteq> []"
      by (simp only: append_Nil) auto
    then obtain c where c: "chain_loop R 0 [] = Some c" "consecutive R 0 c" "c \<noteq> []" by blast
    from speculate_Inr_Some [OF np al [unfolded sl_def] R0 c(1)] c(2,3) good char True
    show ?thesis by blast
  qed
qed

lemma decode_loop_serial:
  fixes self :: "(int, 'p) SpeculativeDecoder"
  assumes bits: "set data \<subseteq> {CHR ''0'', CHR ''1''}"
  shows "decoders self = replicate (speculation_width self + 1) (SingleDecoder_init tree) \<Longrightarrow>
         \<forall>st n. length (implicitly_predict (predictor self) st n) \<le> n \<Longrightarrow>
         serial_from tree (drop (current_position self) data) dec = Inr syms \<Longrightarrow>
         \<exists>self' tries' succ' com' tru'.
           decode_loop self data tries succ dec com tru = Some (Inr (self', tries', succ', syms, com', tru'))"
proof (induction "length data - current_position self"
         arbitrary: self tries succ dec com tru rule: less_induct)
  case less
  note ds = less.prems(1) and contract = less.prems(2) and serial = less.prems(3)
  show ?case
  proof (cases "current_position self < length data")
    case False
    then have "drop (current_position self) data = []" by simp
    with serial have "syms = dec" by (simp add: serial_from_Nil)
    with decode_loop_done [OF False, of tries succ dec com tru] show ?thesis by simp
  next
    case True
    from speculate_uniform [OF True ds contract] obtain R c tg where
      sp: "speculate self data (current_position self) = Some (Inr (limit_chain (chain_length_limit self) c, tg))"
      and cons: "consecutive R 0 c"
      and good: "good_results data (current_position self) R"
      and char: "\<forall>k r. R k = Some r \<longrightarrow> current_position self + k < length data \<and> was_decoded r \<and>
                 r = SingleDecoder_decode (SingleDecoder_init tree) data (current_position self + k)"
      and empty: "c = [] \<longleftrightarrow> \<not> was_decoded (SingleDecoder_decode (SingleDecoder_init tree) data (current_position self))"
      by blast
    define chain where "chain = limit_chain (chain_length_limit self) c"
    show ?thesis
    proof (cases "c = []")
      case True
      then have ch: "chain = []" by (simp add: chain_def limit_chain_def split: option.splits)
      from True empty single_step [OF bits \<open>current_position self < length data\<close>, of tree dec] serial
      have "syms = dec" by auto
      with decode_loop_stop [OF \<open>current_position self < length data\<close> sp [folded chain_def, unfolded ch],
             of tries succ dec com tru]
      show ?thesis by simp
    next
      case False
      then have ne: "chain \<noteq> []" unfolding chain_def by (rule limit_chain_nonempty)
      have cc: "consecutive R 0 chain" unfolding chain_def using cons by (rule consecutive_limit)
      have allgood: "\<forall>r \<in> set chain. 1 \<le> length_r r"
      proof
        fix r assume "r \<in> set chain"
        with consecutive_ran [OF cc] obtain k where "R k = Some r" by blast
        with good show "1 \<le> length_r r" by (simp add: good_results_def)
      qed
      from sum_list_lengths_pos [OF ne allgood] have tot: "1 \<le> sum_list (map length_r chain)" .
      from chain_serial(2) [OF bits char cc] have syms_ok: "\<forall>r \<in> set chain. symbol_r r \<noteq> None" .
      from chain_serial(3) [OF bits char cc, of dec]
      have ser: "serial_from tree (drop (current_position self) data) dec =
                 serial_from tree (drop (current_position self + sum_list (map length_r chain)) data)
                   (dec @ map (\<lambda>r. the (symbol_r r)) chain)"
        by simp
      from commit_loop_symbols [OF syms_ok, of "predictor self" dec]
      have fed: "fst (commit_loop (predictor self) chain dec) = dec @ map (\<lambda>r. the (symbol_r r)) chain" .
      have m: "length data - current_position (advance self chain dec) < length data - current_position self"
        using True tot by (simp add: current_position_advance)
      have ds': "decoders (advance self chain dec)
                   = replicate (speculation_width (advance self chain dec) + 1) (SingleDecoder_init tree)"
        using ds by (simp only: advance_fields simp_thms)
      have contract': "\<forall>st n. length (implicitly_predict (predictor (advance self chain dec)) st n) \<le> n"
        using contract by (simp only: advance_fields simp_thms)
      have serial': "serial_from tree (drop (current_position (advance self chain dec)) data)
                       (fst (commit_loop (predictor self) chain dec)) = Inr syms"
        using serial ser by (simp only: current_position_advance fed)
      from less.hyps [OF m ds' contract' serial', of "tries + (speculation_width self + 1)"
             "succ + length chain" "com @ [length chain]" "tru @ [tg]"]
      show ?thesis
        by (simp only: decode_loop_step [OF True sp [folded chain_def] ne, of tries succ dec com tru])
    qed
  qed
qed

lemma speculative_decode_bytes_of_serial:
  assumes "set b \<subseteq> {CHR ''0'', CHR ''1''}"
    and "HuffmanCode_decode b T = Inr syms"
    and "\<forall>st n. length (implicitly_predict P st n) \<le> n"
  shows "map_option (map_sum id fst)
           (returned (SpeculativeDecoder_decode (SpeculativeDecoder_init T w P lmt) b))
         = Some (py_bytes syms)"
proof -
  define self where "self = SpeculativeDecoder_init T w P lmt"
  have ds: "decoders self = replicate (speculation_width self + 1) (SingleDecoder_init T)"
    by (simp add: self_def SpeculativeDecoder_init_def del: replicate.simps)
  have contract: "\<forall>st n. length (implicitly_predict (predictor self) st n) \<le> n"
    using assms(3) by (simp add: self_def SpeculativeDecoder_init_def)
  have serial: "serial_from T (drop (current_position self) b) [] = Inr syms"
    using assms(2) by (simp add: self_def SpeculativeDecoder_init_def HuffmanCode_decode_serial)
  from decode_loop_serial [OF assms(1) ds contract serial, of 0 0 "[]" "[]"]
  obtain self' tries' succ' com' tru' where
    "decode_loop self b 0 0 [] [] [] = Some (Inr (self', tries', succ', syms, com', tru'))"
    by blast
  then show ?thesis
    unfolding self_def [symmetric]
    by (cases "py_bytes syms") (simp_all add: SpeculativeDecoder_decode_def returned_def)
qed

text \<open>
  C1 (amended). For every tree, every predictor that answers a request for \<open>n\<close> lengths
  with at most \<open>n\<close> lengths (whatever their values), every width and chain limit, and
  every string of \<open>'0'\<close>/\<open>'1'\<close> characters that \<open>HuffmanCode.decode\<close> decodes, without
  raising, into symbols that are all in \<open>range(256)\<close>: a freshly constructed speculative
  decoder returns, as the first component of its result, exactly the symbols the
  non-speculative decoder returns.
\<close>

theorem speculative_decode_equals_serial:
  assumes "set b \<subseteq> {CHR ''0'', CHR ''1''}"
    and "HuffmanCode_decode b T = Inr syms"
    and "\<forall>st n. length (implicitly_predict P st n) \<le> n"
    and "\<forall>s \<in> set syms. 0 \<le> s \<and> s < 256"
  shows "map_option (map_sum id fst)
           (returned (SpeculativeDecoder_decode (SpeculativeDecoder_init T w P lmt) b))
         = Some (Inr syms)"
proof -
  from assms(4) have "py_bytes syms = Inr syms" by (simp add: py_bytes_def)
  with speculative_decode_bytes_of_serial [OF assms(1-3), of w lmt] show ?thesis by simp
qed

text \<open>
  The amended C1 at the tree built from the codes a: 0, b: 10, c: 11, with the static
  vector (1, 2).
\<close>

theorem speculative_decode_equals_serial_witness:
  "set ''0100110'' \<subseteq> {CHR ''0'', CHR ''1''}
   \<and> HuffmanCode_decode ''0100110'' (build_decoding_tree [(97 :: int, ''0''), (98, ''10''), (99, ''11'')])
       = Inr [97, 98, 97, 99, 97]
   \<and> (\<forall>st n. length (implicitly_predict (StaticPredictor [1, 2]) st n) \<le> n)
   \<and> list_all (\<lambda>s. 0 \<le> s \<and> s < 256) [97, 98, 97, 99, 97 :: int]
   \<and> map_option (map_sum id fst)
        (returned (SpeculativeDecoder_decode
           (SpeculativeDecoder_init (build_decoding_tree [(97 :: int, ''0''), (98, ''10''), (99, ''11'')])
              2 (StaticPredictor [1, 2]) None) ''0100110''))
      = Some (Inr [97, 98, 97, 99, 97])"
proof -
  have h1: "set ''0100110'' \<subseteq> {CHR ''0'', CHR ''1''}" by simp
  have h2: "HuffmanCode_decode ''0100110'' (build_decoding_tree [(97 :: int, ''0''), (98, ''10''), (99, ''11'')])
              = Inr [97 :: int, 98, 97, 99, 97]"
    by code_simp
  have h3: "\<forall>st n. length (implicitly_predict (StaticPredictor [1, 2]) st n) \<le> n"
    by (simp add: StaticPredictor_def)
  have h4: "\<forall>s \<in> set [97, 98, 97, 99, 97 :: int]. 0 \<le> s \<and> s < 256" by simp
  from speculative_decode_equals_serial [OF h1 h2 h3 h4, of 2 None] h1 h2 h3 h4 show ?thesis
    by (simp add: list_all_iff)
qed

text \<open>
  C1 as stated fails on a tree built from a code table with a symbol outside
  \<open>range(256)\<close>: for the codes \<open>{255: '0', 256: '1'}\<close> and the string \<open>01\<close>,
  \<open>HuffmanCode.decode\<close> returns \<open>[255, 256]\<close>, while the speculative decoder commits the
  same two symbols and then raises \<open>ValueError\<close> at \<open>bytes(decoded_symbols)\<close>.
\<close>

theorem speculative_decode_non_byte_counterexample:
  "set ''01'' \<subseteq> {CHR ''0'', CHR ''1''}
   \<and> HuffmanCode_decode ''01'' (build_decoding_tree [(255 :: int, ''0''), (256, ''1'')]) = Inr [255, 256]
   \<and> length (implicitly_predict (StaticPredictor [1]) () 1) \<le> 1
   \<and> returned (SpeculativeDecoder_decode
         (SpeculativeDecoder_init (build_decoding_tree [(255 :: int, ''0''), (256, ''1'')])
            1 (StaticPredictor [1]) None) ''01'')
      = Some (Inl ValueError)"
proof -
  have a: "HuffmanCode_decode ''01'' (build_decoding_tree [(255 :: int, ''0''), (256, ''1'')])
             = Inr [255 :: int, 256]"
    by code_simp
  have b: "length (implicitly_predict (StaticPredictor [1]) () 1) \<le> 1"
    by (simp add: StaticPredictor_def)
  have c: "returned (SpeculativeDecoder_decode
         (SpeculativeDecoder_init (build_decoding_tree [(255 :: int, ''0''), (256, ''1'')])
            1 (StaticPredictor [1]) None) ''01'')
      = Some (Inl ValueError)"
    by code_simp
  from a b c show ?thesis by simp
qed

text \<open>
  C8. \<open>SpeculativeDecoder.decode\<close> returns (a value or an exception) for every decoder
  object and every bit string; every successful single decode has length at least 1; and
  every round either yields an empty chain, on which the loop exits, or a non-empty chain
  whose commit moves the position strictly forward.
\<close>

theorem speculative_decode_terminates:
  "(\<exists>res. SpeculativeDecoder_decode self data = Some res)
   \<and> (was_decoded (SingleDecoder_decode D data p) \<longrightarrow> 1 \<le> length_r (SingleDecoder_decode D data p))
   \<and> (\<exists>res. speculate self data (current_position self) = Some res \<and>
        (\<forall>chain tg. res = Inr (chain, tg) \<and> chain \<noteq> [] \<longrightarrow>
           current_position self < current_position (advance self chain decoded)))"
proof -
  from decode_loop_total [of self data 0 0 "[]" "[]" "[]"]
  obtain res where res: "decode_loop self data 0 0 [] [] [] = Some res" by blast
  have a: "\<exists>res. SpeculativeDecoder_decode self data = Some res"
    unfolding SpeculativeDecoder_decode_def res
    by (auto split: sum.splits prod.splits)
  have b: "was_decoded (SingleDecoder_decode D data p) \<longrightarrow> 1 \<le> length_r (SingleDecoder_decode D data p)"
    using single_decode_success [of D data p] by blast
  from speculate_total [of self data "current_position self"] obtain sres where
    s1: "speculate self data (current_position self) = Some sres"
    and s2: "\<And>chain tg. sres = Inr (chain, tg) \<Longrightarrow>
               (\<forall>r \<in> set chain. was_decoded r \<and> 1 \<le> length_r r \<and> symbol_r r \<noteq> None)"
    by blast
  have "\<forall>chain tg. sres = Inr (chain, tg) \<and> chain \<noteq> [] \<longrightarrow>
           current_position self < current_position (advance self chain decoded)"
  proof (intro allI impI)
    fix chain tg assume h: "sres = Inr (chain, tg) \<and> chain \<noteq> []"
    with s2 [of chain tg] have "\<forall>r \<in> set chain. 1 \<le> length_r r" by blast
    with sum_list_lengths_pos [of chain] h have "1 \<le> sum_list (map length_r chain)" by blast
    then show "current_position self < current_position (advance self chain decoded)"
      by (simp add: current_position_advance)
  qed
  with s1 a b show ?thesis by blast
qed

text \<open>
  C10. Whenever \<open>decode\<close> returns \<open>(output, (successes, tries), commits, truly_guessed)\<close>:
  \<open>successes\<close> is the sum of the commits and the number of output symbols, both lists have
  the same length, every commit is at least 1 and every truly-guessed entry is 0 or 1.
\<close>

theorem decode_counters_consistent:
  assumes "returned (SpeculativeDecoder_decode self data)
             = Some (Inr (output, (successes, tries), commits, truly))"
  shows "successes = sum_list commits \<and> successes = length output \<and>
         length commits = length truly \<and>
         (\<forall>c \<in> set commits. 1 \<le> c) \<and> (\<forall>t \<in> set truly. t = 0 \<or> t = 1)"
proof -
  from decode_loop_total [of self data 0 0 "[]" "[]" "[]"]
  obtain res where res: "decode_loop self data 0 0 [] [] [] = Some res"
    and inv: "\<And>self' tries' succ' dec' com' tru'.
        res = Inr (self', tries', succ', dec', com', tru') \<Longrightarrow>
        counters_consistent 0 ([] :: int list) [] [] \<Longrightarrow> counters_consistent succ' dec' com' tru'"
    by blast
  have init: "counters_consistent 0 ([] :: int list) [] []" by (simp add: counters_consistent_def)
  from assms obtain self' dec' where
    r: "res = Inr (self', tries, successes, dec', commits, truly)" and b: "py_bytes dec' = Inr output"
    unfolding returned_def SpeculativeDecoder_decode_def res
    by (auto split: sum.splits prod.splits)
  from b have "output = dec'" by (auto simp: py_bytes_def split: if_splits)
  with inv [OF r init] show ?thesis by (simp add: counters_consistent_def)
qed

text \<open>C8 at a concrete decoder: the first round commits two codewords and advances.\<close>

theorem speculative_decode_terminates_witness:
  "(\<exists>res. SpeculativeDecoder_decode
            (SpeculativeDecoder_init abc_tree 2 (StaticPredictor [1, 2]) None) ''0100110'' = Some res)
   \<and> was_decoded (SingleDecoder_decode (SingleDecoder_init abc_tree) ''0100110'' 1)
   \<and> 1 \<le> length_r (SingleDecoder_decode (SingleDecoder_init abc_tree) ''0100110'' 1)
   \<and> (\<exists>chain tg.
         speculate (SpeculativeDecoder_init abc_tree 2 (StaticPredictor [1, 2]) None) ''0100110'' 0
           = Some (Inr (chain, tg)) \<and> chain \<noteq> [] \<and>
         0 < current_position
               (advance (SpeculativeDecoder_init abc_tree 2 (StaticPredictor [1, 2]) None) chain []))"
proof -
  define S where "S = SpeculativeDecoder_init abc_tree 2 (StaticPredictor [1, 2]) None"
  have p0: "current_position S = 0" by (simp add: S_def SpeculativeDecoder_init_def)
  have wd: "was_decoded (SingleDecoder_decode (SingleDecoder_init abc_tree) ''0100110'' 1)"
    by code_simp
  have sp: "speculate S ''0100110'' 0 =
              Some (Inr ([\<lparr>was_decoded = True, symbol_r = Some 97, length_r = 1\<rparr>,
                          \<lparr>was_decoded = True, symbol_r = Some 98, length_r = 2\<rparr>], 1))"
    unfolding S_def by code_simp
  from speculative_decode_terminates
         [of S "''0100110''" "SingleDecoder_init abc_tree" 1 "[]"] wd sp
  show ?thesis
    unfolding S_def [symmetric] p0 by auto
qed

text \<open>C10 at a concrete run: three rounds committing 2, 2 and 1 codewords.\<close>

theorem decode_counters_consistent_witness:
  "returned (SpeculativeDecoder_decode
       (SpeculativeDecoder_init abc_tree 2 (StaticPredictor [1, 2]) None) ''0100110'')
     = Some (Inr ([97, 98, 97, 99, 97], (5, 9), [2, 2, 1], [1, 1, 1]))
   \<and> (5::nat) = sum_list [2, 2, 1] \<and> (5::nat) = length [97, 98, 97, 99, 97 :: int]
   \<and> length [2, 2, 1 :: nat] = length [1, 1, 1 :: nat]
   \<and> list_all (\<lambda>c. 1 \<le> c) [2, 2, 1 :: nat]
   \<and> list_all (\<lambda>t. t = 0 \<or> t = 1) [1, 1, 1 :: nat]"
proof -
  have h: "returned (SpeculativeDecoder_decode
       (SpeculativeDecoder_init abc_tree 2 (StaticPredictor [1, 2]) None) ''0100110'')
     = Some (Inr ([97, 98, 97, 99, 97], (5, 9), [2, 2, 1], [1, 1, 1]))"
    by code_simp
  from decode_counters_consistent [OF h] h show ?thesis by (simp add: list_all_iff)
qed

section \<open>Results about the simple calculator\<close>

lemma expectation_loop_sum:
  "i \<le> w \<Longrightarrow> expectation_loop beyond scheme w L i res =
     (case sum_terms (map (shift_term beyond scheme w L) [i..<w]) of
        Inl e \<Rightarrow> Inl e | Inr s \<Rightarrow> Inr (res + s))"
proof (induction "w - i" arbitrary: i res)
  case 0
  then have "i = w" by simp
  then show ?case by (subst expectation_loop.simps) simp
next
  case (Suc d)
  then have lt: "i < w" and d: "d = w - Suc i" and le: "Suc i \<le> w" by auto
  have up: "[i..<w] = i # [Suc i..<w]" using lt by (simp add: upt_conv_Cons)
  note ih = Suc.hyps(1) [OF d le]
  show ?case
    apply (subst expectation_loop.simps)
    apply (simp only: up list.map sum_terms.simps)
    apply (auto simp: lt shift_term_def Let_def ih split: sum.splits)
    done
qed

lemma wrap_int64_id: "in_int64 x \<Longrightarrow> wrap_int64 x = x"
  by (simp add: in_int64_def wrap_int64_def)

lemma shift_in_range:
  assumes "\<forall>x \<in> set L. 0 \<le> x \<and> x < 2 ^ 63" and "i < length L"
  shows "map (\<lambda>x. wrap_int64 (x - L ! i)) L = map (\<lambda>x. x - L ! i) L"
proof (rule map_cong [OF refl])
  fix x assume x: "x \<in> set L"
  from assms have "0 \<le> L ! i \<and> L ! i < 2 ^ 63" by simp
  with assms(1) x have "in_int64 (x - L ! i)" by (auto simp: in_int64_def)
  then show "wrap_int64 (x - L ! i) = x - L ! i" by (rule wrap_int64_id)
qed

lemma drop_and_shift_strict:
  assumes "sorted_wrt (<) L" and "i < length L"
  shows "drop_and_shift L i = drop (i + 1) (map (\<lambda>x. x - L ! i) L)"
proof -
  have "\<forall>x \<in> set (drop (i + 1) L). L ! i < x"
  proof
    fix x assume "x \<in> set (drop (i + 1) L)"
    then obtain k where k: "k < length (drop (i + 1) L)" and x: "x = drop (i + 1) L ! k"
      by (auto simp: in_set_conv_nth)
    from k have "i + 1 + k < length L" by simp
    with assms(1) have "L ! i < L ! (i + 1 + k)"
      by (simp add: sorted_wrt_iff_nth_less)
    with x k show "L ! i < x" by simp
  qed
  then have "filter (\<lambda>x. x > L ! i) (drop (i + 1) L) = drop (i + 1) L"
    by (simp add: filter_id_conv)
  then show ?thesis by (simp add: drop_and_shift_def drop_map)
qed

text \<open>
  C5 (amended). For every scheme, every \<open>w\<close> and every strictly increasing tuple \<open>L\<close> of
  \<open>w\<close> nonnegative integers below \<open>2\<^sup>6\<^sup>3\<close>, \<open>expectation_sorted(w, L)\<close> is the sum over \<open>i\<close>
  of \<open>p(L[i]) \<cdot> (1 + expectation_sorted(w - i - 1, drop_and_shift(L, i)))\<close>: with no
  duplicates, no later entry equals \<open>L[i]\<close> and \<open>drop_and_shift\<close> only shifts, as the code
  does, and within 64 bits the code's subtraction is exact.
\<close>

theorem recursion_for_strictly_increasing:
  assumes "sorted_wrt (<) L" and "length L = w" and "\<forall>x \<in> set L. 0 \<le> x \<and> x < 2 ^ 63"
  shows "expectation_sorted beyond_int64 scheme w L = spec_recursion beyond_int64 scheme w L"
proof (cases "w = 0")
  case True
  then show ?thesis by (simp add: expectation_sorted.simps spec_recursion_def)
next
  case False
  have terms: "map (shift_term beyond_int64 scheme w L) [0..<w]
                 = map (recursion_term beyond_int64 scheme w L) [0..<w]"
  proof (rule map_cong [OF refl])
    fix i assume "i \<in> set [0..<w]"
    then have i: "i < length L" using assms(2) by simp
    have ds: "drop (i + 1) (map (\<lambda>x. wrap_int64 (x - L ! i)) L) = drop_and_shift L i"
      unfolding shift_in_range [OF assms(3) i]
      by (rule drop_and_shift_strict [OF assms(1) i, symmetric])
    have sub: "w - i - 1 = w - (i + 1)" by simp
    show "shift_term beyond_int64 scheme w L i = recursion_term beyond_int64 scheme w L i"
      unfolding shift_term_def recursion_term_def ds sub ..
  qed
  have range: "list_all in_int64 L"
    using assms(3) by (auto simp: list_all_iff in_int64_def)
  have "expectation_sorted beyond_int64 scheme w L = expectation_loop beyond_int64 scheme w L 0 0"
    using False range by (simp add: expectation_sorted.simps)
  also have "\<dots> = sum_terms (map (shift_term beyond_int64 scheme w L) [0..<w])"
    by (simp add: expectation_loop_sum split: sum.splits)
  finally show ?thesis by (simp add: terms spec_recursion_def)
qed

text \<open>The amended C5 at the vector \<open>(1, 2)\<close> of scenario S4.\<close>

theorem recursion_for_strictly_increasing_witness:
  "sorted_wrt (<) [1, 2 :: int] \<and> length [1, 2 :: int] = 2
   \<and> list_all (\<lambda>x. 0 \<le> x \<and> x < 2 ^ 63) [1, 2 :: int]
   \<and> expectation_sorted (\<lambda>s w l. Inr 0) scheme_S4 2 [1, 2]
       = spec_recursion (\<lambda>s w l. Inr 0) scheme_S4 2 [1, 2]
   \<and> spec_recursion (\<lambda>s w l. Inr 0) scheme_S4 2 [1, 2] = Inr (21 / 20)"
proof -
  have h1: "sorted_wrt (<) [1, 2 :: int]" by simp
  have h2: "length [1, 2 :: int] = 2" by simp
  have h3: "\<forall>x \<in> set [1, 2 :: int]. 0 \<le> x \<and> x < 2 ^ 63" by simp
  have v: "spec_recursion (\<lambda>s w l. Inr 0) scheme_S4 2 [1, 2] = Inr (21 / 20)" by code_simp
  from recursion_for_strictly_increasing [OF h1 h2 h3, of "\<lambda>s w l. Inr 0" scheme_S4] h1 h2 h3 v
  show ?thesis by (simp add: list_all_iff)
qed

text \<open>
  C5 as stated fails on a sorted tuple with a duplicate: for outcomes \<open>[0, 1]\<close> with
  probabilities \<open>[1/2, 1/2]\<close> and \<open>L = (1, 1)\<close> the code keeps the second entry as \<open>0\<close>
  and returns \<open>1/2 \<cdot> (1 + 1/2) + 1/2 = 5/4\<close>, while the stated right-hand side asks for
  \<open>expectation_sorted(1, ())\<close>, which raises \<open>IndexError\<close>. All entries are small, so the
  parameter for wide entries plays no part.
\<close>

theorem recursion_with_duplicates_counterexample:
  "sorted [1, 1 :: int] \<and> length [1, 1 :: int] = 2
   \<and> expectation_sorted (\<lambda>s w l. Inr 0) scheme_zero_one 2 [1, 1] = Inr (5 / 4)
   \<and> spec_recursion (\<lambda>s w l. Inr 0) scheme_zero_one 2 [1, 1] = Inl IndexError
   \<and> expectation_sorted (\<lambda>s w l. Inr 0) scheme_zero_one 2 [1, 1]
       \<noteq> spec_recursion (\<lambda>s w l. Inr 0) scheme_zero_one 2 [1, 1]"
proof -
  have a: "expectation_sorted (\<lambda>s w l. Inr 0) scheme_zero_one 2 [1, 1] = Inr (5 / 4)" by code_simp
  have b: "spec_recursion (\<lambda>s w l. Inr 0) scheme_zero_one 2 [1, 1] = Inl IndexError" by code_simp
  show ?thesis unfolding a b by simp
qed

lemma expectation_small_entries:
  "expectation_sorted beyond_int64 scheme_S4 1 [1] = Inr (1 / 2)"
  "expectation_sorted beyond_int64 scheme_S4 0 [] = Inr 0"
  by (simp_all add: expectation_sorted.simps expectation_loop.simps in_int64_def wrap_int64_def
        scheme_S4_def SimpleProbabilisticScheme_p_def)

text \<open>
  C9. For outcomes \<open>[1, 2, 3]\<close> with probabilities \<open>[1/2, 3/10, 1/5]\<close>,
  \<open>expectation_sorted(2, (1, 2))\<close> is exactly \<open>21/20\<close>.
\<close>

theorem expectation_example_S4:
  "expectation_sorted beyond_int64 scheme_S4 2 [1, 2] = Inr (21 / 20)"
  by (simp add: expectation_sorted.simps expectation_loop.simps in_int64_def wrap_int64_def
        scheme_S4_def SimpleProbabilisticScheme_p_def)

section \<open>Results about get_top and get_baseline_set\<close>

lemma list_index_less: "x \<in> set xs \<Longrightarrow> list_index xs x < length xs"
  by (induction xs) auto

lemma p_defined:
  "length (outcomes self) \<le> length (probabilities self) \<Longrightarrow>
   \<exists>pr. SimpleProbabilisticScheme_p self outcome = Inr pr"
  using list_index_less [of outcome "outcomes self"]
  by (auto simp: SimpleProbabilisticScheme_p_def Let_def)

lemma outcomes_and_probabilities_defined:
  "length (outcomes self) \<le> length (probabilities self) \<Longrightarrow>
   \<exists>ops. outcomes_and_probabilities self os = Inr ops \<and> length ops = length os"
proof (induction os)
  case Nil
  then show ?case by simp
next
  case (Cons a os)
  from p_defined [OF Cons.prems, of a] obtain pr where
    "SimpleProbabilisticScheme_p self a = Inr pr" by blast
  with Cons show ?case by auto
qed

lemma get_top_impossible:
  assumes "length (outcomes self) \<le> length (probabilities self)"
    and "length (outcomes self) < n"
  shows "SimpleProbabilisticScheme_get_top self n = Inl ValueError"
proof -
  from outcomes_and_probabilities_defined [OF assms(1), of "outcomes self"] obtain ops where
    "outcomes_and_probabilities self (outcomes self) = Inr ops" "length ops = length (outcomes self)"
    by blast
  with assms(2) show ?thesis
    by (simp add: SimpleProbabilisticScheme_get_top_def)
qed

lemma get_baseline_set_diverges:
  assumes "\<forall>j. card (fold (\<lambda>k acc. acc \<union> get_j_set lengths k) [1..<j + 1] {}) < n"
  shows "get_baseline_set lengths n j = None"
proof (rule ccontr)
  assume "get_baseline_set lengths n j \<noteq> None"
  then obtain y where y: "get_baseline_set lengths n j = Some y" by blast
  have "\<not> (\<forall>j. card (fold (\<lambda>k acc. acc \<union> get_j_set lengths k) [1..<j + 1] {}) < n)"
  proof (rule get_baseline_set.raw_induct
           [where P = "\<lambda>ls m i r. \<not> (\<forall>j. card (fold (\<lambda>k acc. acc \<union> get_j_set ls k) [1..<j + 1] {}) < m)",
            OF _ y])
    fix f :: "int list \<Rightarrow> nat \<Rightarrow> nat \<Rightarrow> int list option" and ls m i r
    assume hyp: "\<And>ls' m' i' r'. f ls' m' i' = Some r' \<Longrightarrow>
              \<not> (\<forall>j. card (fold (\<lambda>k acc. acc \<union> get_j_set ls' k) [1..<j + 1] {}) < m')"
      and body: "(let result = fold (\<lambda>k acc. acc \<union> get_j_set ls k) [1..<i + 1] {}
                  in if card result < m then f ls m (i + 1)
                     else Some (take m (sorted_list_of_set result))) = Some r"
    show "\<not> (\<forall>j. card (fold (\<lambda>k acc. acc \<union> get_j_set ls k) [1..<j + 1] {}) < m)"
    proof
      assume a: "\<forall>j. card (fold (\<lambda>k acc. acc \<union> get_j_set ls k) [1..<j + 1] {}) < m"
      then have "card (fold (\<lambda>k acc. acc \<union> get_j_set ls k) [1..<i + 1] {}) < m" by blast
      with body have "f ls m (i + 1) = Some r" by (simp add: Let_def)
      from hyp [OF this] a show False by blast
    qed
  qed
  with assms show False by blast
qed

lemma fold_union_empty:
  "\<forall>k \<in> set ks. g k = {} \<Longrightarrow> fold (\<lambda>k acc. acc \<union> g k) ks A = A"
  by (induction ks arbitrary: A) auto

lemma get_j_set_no_lengths: "0 < k \<Longrightarrow> get_j_set [] k = {}"
  by (cases k) auto

lemma get_baseline_set_no_lengths:
  assumes "1 \<le> n"
  shows "get_baseline_set [] n j = None"
proof (rule get_baseline_set_diverges, rule allI)
  fix j
  have "\<forall>k \<in> set [1..<j + 1]. get_j_set [] k = {}"
    by (auto simp: get_j_set_no_lengths)
  from fold_union_empty [of "[1..<j + 1]" "get_j_set []" "{}", OF this]
  have "fold (\<lambda>k acc. acc \<union> get_j_set [] k) [1..<j + 1] {} = {}" .
  with assms show "card (fold (\<lambda>k acc. acc \<union> get_j_set [] k) [1..<j + 1] {}) < n" by simp
qed

text \<open>
  C6 (the code's behaviour at the failing input). With no lengths, \<open>get_baseline_set(1)\<close>
  never returns: every set of sums is empty, and the function only calls itself again.
\<close>

theorem get_baseline_set_never_returns: "get_baseline_set [] 1 1 = None"
  by (rule get_baseline_set_no_lengths) simp

section \<open>Results about the greedy optimizer\<close>

lemma priorities_loop_fails:
  "rs \<noteq> [] \<Longrightarrow> \<exists>e. priorities_loop g scheme rs acc = Inl e"
  by (cases rs) (auto simp: SimpleProbabilisticScheme_compact_def split: sum.splits)

lemma greedy_depth_one:
  "SimpleOptimizer_greedy beyond g scheme w 1 =
     (case SimpleProbabilisticScheme_get_top scheme w of
        Inl e \<Rightarrow> Inl e
      | Inr top_w \<Rightarrow>
          (case expectation_sorted beyond scheme w (sort top_w) of
             Inl e \<Rightarrow> Inl e
           | Inr sc \<Rightarrow> Inr (sc, sort top_w)))"
  by (simp add: SimpleOptimizer_greedy_def SimpleOptimizer__greedy_def
        SimpleOptimizer__calculate_score_def score_def sorted_sort_id split: sum.splits)

lemma greedy_deeper_fails:
  assumes "2 \<le> r"
  shows "\<exists>e. SimpleOptimizer_greedy beyond g scheme w r = Inl e"
proof -
  from assms have "[1..<r + 1] \<noteq> []" by simp
  from priorities_loop_fails [OF this, of g scheme "[]"] obtain e where
    "priorities_loop g scheme [1..<r + 1] [] = Inl e" by blast
  with assms show ?thesis by (simp add: SimpleOptimizer_greedy_def)
qed

text \<open>
  C7 (the code's behaviour at the failing input). Whatever \<open>get_scheme_for_sum\<close> computes,
  \<open>greedy(2, 2)\<close> on the scheme of scenario S4 raises instead of returning a score and a
  vector: the first pass of the loop ends in the call of the missing method \<open>compact\<close>.
\<close>

theorem greedy_future_depth_raises:
  "\<exists>e. SimpleOptimizer_greedy beyond_int64 get_scheme_for_sum scheme_S4 2 2 = Inl e"
  by (rule greedy_deeper_fails) simp

section \<open>Results about encoding\<close>

lemma encode_loop_concat:
  "set data \<subseteq> dom (map_of huffman_codes) \<Longrightarrow>
   encode_loop data huffman_codes acc = Inr (acc @ map (\<lambda>s. the (map_of huffman_codes s)) data)"
  by (induction data arbitrary: acc) (auto split: option.splits)

lemma encode_loop_unknown:
  "\<not> set data \<subseteq> dom (map_of huffman_codes) \<Longrightarrow>
   encode_loop data huffman_codes acc = Inl ValueError"
  by (induction data arbitrary: acc) (auto split: option.splits)

lemma encode_known:
  "set data \<subseteq> dom (map_of huffman_codes) \<Longrightarrow>
   HuffmanCode_encode data huffman_codes
     = Inr (concat (map (\<lambda>s. the (map_of huffman_codes s)) data))"
  by (cases "data = [] \<or> huffman_codes = []")
     (auto simp: HuffmanCode_encode_def encode_loop_concat)

lemma encode_unknown:
  "\<not> set data \<subseteq> dom (map_of huffman_codes) \<Longrightarrow> huffman_codes \<noteq> [] \<Longrightarrow>
   HuffmanCode_encode data huffman_codes = Inl ValueError"
  by (auto simp: HuffmanCode_encode_def encode_loop_unknown)

text \<open>
  C4 (the code's behaviour at the failing input). Against an empty code table a one-symbol
  sequence is encoded to the empty string: the guard \<open>if not data or not huffman_codes\<close>
  returns before any symbol is looked up.
\<close>

theorem encode_empty_table_returns: "HuffmanCode_encode [s] [] = Inr []"
  by (simp add: HuffmanCode_encode_def)

section \<open>Results about the heap queue\<close>

lemma hole_update:
  assumes "pos < length heap" and "q < length heap" and "q \<noteq> pos"
  shows "mset (heap[pos := heap ! q]) - {#heap[pos := heap ! q] ! q#} = mset heap - {#heap ! pos#}"
proof -
  have "heap[pos := heap ! q] ! q = heap ! q" using assms by simp
  moreover have "mset (heap[pos := heap ! q]) = add_mset (heap ! q) (mset heap - {#heap ! pos#})"
    using assms(1) by (simp add: mset_update)
  ultimately show ?thesis by simp
qed

lemma siftdown_loop_mset:
  "pos < length heap \<Longrightarrow>
   mset (siftdown_loop heap newitem startpos pos) = add_mset newitem (mset heap - {#heap ! pos#})"
proof (induction heap newitem startpos pos rule: siftdown_loop.induct)
  case (1 heap newitem startpos pos)
  show ?case
  proof (cases "pos > startpos \<and> node_lt newitem (heap ! ((pos - 1) div 2))")
    case False
    then show ?thesis
      using "1.prems" by (subst siftdown_loop.simps) (auto simp: Let_def mset_update)
  next
    case True
    define q where "q = (pos - 1) div 2"
    from True have q: "q < pos" by (auto simp: q_def)
    with "1.prems" have ql: "q < length heap" by simp
    have "siftdown_loop heap newitem startpos pos
            = siftdown_loop (heap[pos := heap ! q]) newitem startpos q"
      using True by (subst siftdown_loop.simps) (simp add: Let_def q_def)
    also have "mset \<dots> = add_mset newitem
                  (mset (heap[pos := heap ! q]) - {#heap[pos := heap ! q] ! q#})"
      using "1.IH" [of q "heap ! q"] True ql by (simp add: q_def)
    also have "\<dots> = add_mset newitem (mset heap - {#heap ! pos#})"
      using hole_update [OF "1.prems" ql] q by simp
    finally show ?thesis .
  qed
qed

lemma siftdown_mset: "pos < length heap \<Longrightarrow> mset (siftdown heap startpos pos) = mset heap"
  by (simp add: siftdown_def siftdown_loop_mset)

lemma siftup_loop_hole:
  "pos < length heap \<Longrightarrow>
   snd (siftup_loop heap pos) < length (fst (siftup_loop heap pos)) \<and>
   mset (fst (siftup_loop heap pos)) - {#fst (siftup_loop heap pos) ! snd (siftup_loop heap pos)#}
     = mset heap - {#heap ! pos#}"
proof (induction heap pos rule: siftup_loop.induct)
  case (1 heap pos)
  show ?case
  proof (cases "2 * pos + 1 < length heap")
    case False
    then have eq: "siftup_loop heap pos = (heap, pos)"
      by (subst siftup_loop.simps) (simp add: Let_def)
    show ?thesis unfolding eq using "1.prems" by simp
  next
    case True
    define c where "c = (if 2 * pos + 1 + 1 < length heap
                              \<and> \<not> node_lt (heap ! (2 * pos + 1)) (heap ! (2 * pos + 1 + 1))
                           then 2 * pos + 1 + 1 else 2 * pos + 1)"
    have c: "c < length heap" "c \<noteq> pos" using True by (auto simp: c_def)
    have step: "siftup_loop heap pos = siftup_loop (heap[pos := heap ! c]) c"
      using True by (subst siftup_loop.simps) (simp add: Let_def c_def)
    from "1.IH" [OF refl True refl, of c] c
    have "snd (siftup_loop (heap[pos := heap ! c]) c) < length (fst (siftup_loop (heap[pos := heap ! c]) c)) \<and>
          mset (fst (siftup_loop (heap[pos := heap ! c]) c))
            - {#fst (siftup_loop (heap[pos := heap ! c]) c) ! snd (siftup_loop (heap[pos := heap ! c]) c)#}
          = mset (heap[pos := heap ! c]) - {#heap[pos := heap ! c] ! c#}"
      by (simp add: c_def)
    with hole_update [OF "1.prems" c] show ?thesis unfolding step by simp
  qed
qed

lemma siftup_mset:
  assumes "pos < length heap"
  shows "mset (siftup heap pos) = mset heap"
proof -
  define h where "h = fst (siftup_loop heap pos)"
  define q where "q = snd (siftup_loop heap pos)"
  from siftup_loop_hole [OF assms] have q: "q < length h"
    and hole: "mset h - {#h ! q#} = mset heap - {#heap ! pos#}"
    by (simp_all add: h_def q_def)
  have "mset (siftup heap pos) = mset (h[q := heap ! pos])"
    using q by (simp add: siftup_def Let_def h_def q_def siftdown_mset)
  also have "\<dots> = add_mset (heap ! pos) (mset h - {#h ! q#})"
    using q by (simp add: mset_update)
  also have "\<dots> = mset heap" using assms by (simp add: hole)
  finally show ?thesis .
qed

lemma fold_siftup_mset:
  "\<forall>i \<in> set is. i < length x \<Longrightarrow> mset (fold (\<lambda>i heap. siftup heap i) is x) = mset x"
proof (induction "is" arbitrary: x)
  case Nil
  then show ?case by simp
next
  case (Cons i "is")
  then have i: "i < length x" by simp
  from siftup_mset [OF i] have m: "mset (siftup x i) = mset x" .
  then have "length (siftup x i) = length x" by (rule mset_eq_length)
  with Cons.prems have "\<forall>j \<in> set is. j < length (siftup x i)" by simp
  from Cons.IH [OF this] m show ?case by simp
qed

lemma heapify_mset: "mset (heapify x) = mset x"
  unfolding heapify_def by (rule fold_siftup_mset) auto

lemma heappop_mset:
  assumes "heap \<noteq> []"
  shows "\<exists>x heap'. heappop heap = Inr (x, heap') \<and> mset heap = add_mset x (mset heap')"
proof (cases "butlast heap = []")
  case True
  with assms have "heap = [last heap]" by (metis append_butlast_last_id append_Nil)
  then have "mset heap = {#last heap#}" by (metis mset.simps(1) mset.simps(2))
  with assms True show ?thesis by (simp add: heappop_def)
next
  case False
  define h1 where "h1 = butlast heap"
  define e where "e = last heap"
  from assms have heap: "heap = h1 @ [e]" by (simp add: h1_def e_def)
  from False have ne: "0 < length h1" unfolding h1_def by (simp only: length_greater_0_conv simp_thms)
  have pop: "heappop heap = Inr (h1 ! 0, siftup (h1[0 := e]) 0)"
    using assms False by (simp add: heappop_def h1_def e_def Let_def)
  have "mset (siftup (h1[0 := e]) 0) = mset (h1[0 := e])"
    using ne by (simp add: siftup_mset)
  also have "\<dots> = add_mset e (mset h1 - {#h1 ! 0#})" using ne by (simp add: mset_update)
  finally have "add_mset (h1 ! 0) (mset (siftup (h1[0 := e]) 0)) = add_mset e (mset h1)"
    using ne by simp
  with pop heap show ?thesis by simp
qed

lemma heappush_mset: "mset (heappush heap item) = add_mset item (mset heap)"
  by (simp add: heappush_def siftdown_mset)

section \<open>Results about tree construction\<close>

lemma forest_symbols_mset:
  "forest_symbols heap = sum_mset (image_mset (\<lambda>t. mset (map fst (paths t))) (mset heap))"
  unfolding forest_symbols_def by (induction heap) auto

lemma heappop_forest:
  assumes "heap \<noteq> []"
  shows "\<exists>x heap'. heappop heap = Inr (x, heap') \<and> length heap = Suc (length heap')
           \<and> forest_symbols heap = mset (map fst (paths x)) + forest_symbols heap'
           \<and> set heap = insert x (set heap')"
proof -
  from heappop_mset [OF assms] obtain x heap' where
    p: "heappop heap = Inr (x, heap')" and m: "mset heap = add_mset x (mset heap')" by blast
  from m have "size (mset heap) = size (add_mset x (mset heap'))" by simp
  then have l: "length heap = Suc (length heap')" by simp
  from m have s: "set heap = insert x (set heap')"
    by (metis set_mset_add_mset_insert set_mset_mset)
  from m have "forest_symbols heap = mset (map fst (paths x)) + forest_symbols heap'"
    by (simp add: forest_symbols_mset)
  with p l s show ?thesis by blast
qed

lemma heappush_forest:
  "length (heappush heap item) = Suc (length heap)"
  "forest_symbols (heappush heap item) = mset (map fst (paths item)) + forest_symbols heap"
  "set (heappush heap item) = insert item (set heap)"
proof -
  have m: "mset (heappush heap item) = add_mset item (mset heap)" by (rule heappush_mset)
  from m have "size (mset (heappush heap item)) = size (add_mset item (mset heap))" by simp
  then show "length (heappush heap item) = Suc (length heap)" by simp
  from m show "forest_symbols (heappush heap item) = mset (map fst (paths item)) + forest_symbols heap"
    by (simp add: forest_symbols_mset)
  from m show "set (heappush heap item) = insert item (set heap)"
    by (metis set_mset_add_mset_insert set_mset_mset)
qed

lemma paths_merged:
  "map fst (paths (Node None f (Some l) (Some r))) = map fst (paths l) @ map fst (paths r)"
  by (simp add: comp_def case_prod_unfold)

lemma build_loop_result:
  assumes "heap \<noteq> []" and "\<forall>x \<in> set heap. proper x"
  shows "\<exists>t. build_loop heap = Some (Inr [t]) \<and> proper t
            \<and> mset (map fst (paths t)) = forest_symbols heap"
  using assms
proof (induction "length heap" arbitrary: heap rule: less_induct)
  case less
  show ?case
  proof (cases "length heap > 1")
    case False
    with less.prems(1) obtain t where h: "heap = [t]"
      by (cases heap) auto
    have "build_loop heap = Some (Inr [t])" by (subst build_loop.simps) (simp add: h)
    with less.prems(2) show ?thesis by (simp add: h forest_symbols_def)
  next
    case True
    from heappop_forest [OF less.prems(1)] obtain l heap1 where
      p1: "heappop heap = Inr (l, heap1)" and l1: "length heap = Suc (length heap1)"
      and f1: "forest_symbols heap = mset (map fst (paths l)) + forest_symbols heap1"
      and s1: "set heap = insert l (set heap1)" by blast
    from True l1 have "heap1 \<noteq> []" by auto
    from heappop_forest [OF this] obtain r heap2 where
      p2: "heappop heap1 = Inr (r, heap2)" and l2: "length heap1 = Suc (length heap2)"
      and f2: "forest_symbols heap1 = mset (map fst (paths r)) + forest_symbols heap2"
      and s2: "set heap1 = insert r (set heap2)" by blast
    define merged where "merged = Node None (frequency l + frequency r) (Some l) (Some r)"
    define heap3 where "heap3 = heappush heap2 merged"
    have step: "build_loop heap = build_loop heap3"
      using True p1 p2 by (subst build_loop.simps) (simp add: heap3_def merged_def)
    have len: "length heap3 < length heap" using l1 l2 by (simp add: heap3_def heappush_forest)
    have ne: "heap3 \<noteq> []" using heappush_forest(1) [of heap2 merged] by (auto simp: heap3_def)
    have pm: "proper merged" using less.prems(2) s1 s2 by (simp add: merged_def)
    have pr: "\<forall>x \<in> set heap3. proper x"
      using less.prems(2) s1 s2 pm by (auto simp: heap3_def heappush_forest)
    have pmm: "mset (map fst (paths merged)) = mset (map fst (paths l)) + mset (map fst (paths r))"
      unfolding merged_def paths_merged by simp
    have "forest_symbols heap3 = mset (map fst (paths merged)) + forest_symbols heap2"
      unfolding heap3_def by (rule heappush_forest)
    then have fs: "forest_symbols heap3 = forest_symbols heap"
      unfolding pmm f1 f2 by (simp only: add.assoc)
    from less.hyps [OF len ne pr] fs step show ?thesis by simp
  qed
qed

lemma generate_paths:
  "proper t \<Longrightarrow>
   generate_huffman_codes (Some t) c acc
     = fold (\<lambda>(s, p) al. AList.update s (c @ p) al) (paths t) acc"
proof (induction t arbitrary: c acc rule: proper.induct)
  case (1 s f l r)
  then show ?case by simp
next
  case (2 f a b)
  from "2.prems" have pa: "proper a" and pb: "proper b" by simp_all
  show ?case
    by (simp add: "2.IH"(1) [OF pa] "2.IH"(2) [OF pb] fold_map comp_def case_prod_unfold)
qed simp_all

lemma fold_update_other:
  "k \<notin> fst ` set ps \<Longrightarrow>
   map_of (fold (\<lambda>(s, p) al. AList.update s (c @ p) al) ps acc) k = map_of acc k"
  by (induction ps arbitrary: acc) (auto simp: update_conv')

lemma fold_update_lookup:
  "distinct (map fst ps) \<Longrightarrow> (k, p) \<in> set ps \<Longrightarrow>
   map_of (fold (\<lambda>(s, p) al. AList.update s (c @ p) al) ps acc) k = Some (c @ p)"
proof (induction ps arbitrary: acc)
  case Nil
  then show ?case by simp
next
  case (Cons x ps)
  obtain s q where x: "x = (s, q)" by (cases x)
  show ?case
  proof (cases "(k, p) = (s, q)")
    case True
    with Cons.prems x have "k \<notin> fst ` set ps" by auto
    from fold_update_other [OF this, of c "AList.update s (c @ q) acc"] True x
    show ?thesis by (simp add: update_conv')
  next
    case False
    with Cons.prems x have "(k, p) \<in> set ps" "distinct (map fst ps)" by auto
    from Cons.IH [OF this(2) this(1), of "AList.update s (c @ q) acc"] x show ?thesis by simp
  qed
qed

lemma proper_leaf_paths: "proper t \<Longrightarrow> symbol t = Some s \<Longrightarrow> paths t = [(s, [])]"
  by (cases t) auto

lemma proper_internal:
  "proper t \<Longrightarrow> symbol t = None \<Longrightarrow> \<exists>f a b. t = Node None f (Some a) (Some b) \<and> proper a \<and> proper b"
  by (induction t rule: proper.induct) auto

lemma decode_path:
  "proper t \<Longrightarrow> symbol t = None \<Longrightarrow> (s, p) \<in> set (paths t) \<Longrightarrow>
   HuffmanCode_decode_loop rnode t (p @ rest) decoded
     = HuffmanCode_decode_loop rnode rnode rest (decoded @ [s])"
proof (induction p arbitrary: t)
  case Nil
  from proper_internal [OF Nil.prems(1,2)] obtain f a b where "t = Node None f (Some a) (Some b)"
    by blast
  with Nil.prems(3) show ?case by auto
next
  case (Cons b p)
  from proper_internal [OF Cons.prems(1,2)] obtain f l r where
    t: "t = Node None f (Some l) (Some r)" and pl: "proper l" and pr: "proper r" by blast
  define x where "x = (if b = CHR ''0'' then l else r)"
  have px: "proper x" using pl pr by (simp add: x_def)
  from Cons.prems(3) t have mem: "(s, p) \<in> set (paths x)"
    by (auto simp: x_def)
  have step: "HuffmanCode_decode_loop rnode t ((b # p) @ rest) decoded =
        (case symbol x of
           Some s' \<Rightarrow> HuffmanCode_decode_loop rnode rnode (p @ rest) (decoded @ [s'])
         | None \<Rightarrow> HuffmanCode_decode_loop rnode x (p @ rest) decoded)"
    by (auto simp: t x_def split: option.splits)
  show ?case
  proof (cases "symbol x")
    case None
    from Cons.IH [OF px None mem] step None show ?thesis by simp
  next
    case (Some s')
    from proper_leaf_paths [OF px Some] mem have "s = s'" "p = []" by simp_all
    with step Some show ?thesis by simp
  qed
qed

lemma path_nonempty:
  "proper t \<Longrightarrow> symbol t = None \<Longrightarrow> (s, p) \<in> set (paths t) \<Longrightarrow> p \<noteq> []"
proof -
  assume a: "proper t" "symbol t = None" "(s, p) \<in> set (paths t)"
  from proper_internal [OF a(1,2)] obtain f l r where "t = Node None f (Some l) (Some r)" by blast
  with a(3) show "p \<noteq> []" by auto
qed

lemma decode_concat:
  assumes "proper rnode" and "symbol rnode = None"
    and codes: "\<forall>s \<in> set data. \<exists>p. (s, p) \<in> set (paths rnode) \<and> map_of codes s = Some p"
  shows "HuffmanCode_decode_loop rnode rnode (concat (map (\<lambda>s. the (map_of codes s)) data)) acc
           = Inr (acc @ data)"
  using codes
proof (induction data arbitrary: acc)
  case Nil
  then show ?case by simp
next
  case (Cons s data)
  from Cons.prems obtain p where p: "(s, p) \<in> set (paths rnode)" "map_of codes s = Some p" by auto
  from Cons.prems have rest: "\<forall>s \<in> set data. \<exists>p. (s, p) \<in> set (paths rnode) \<and> map_of codes s = Some p"
    by simp
  from decode_path [OF assms(1,2) p(1)] Cons.IH [OF rest, of "acc @ [s]"] p(2)
  show ?case by simp
qed

lemma leaves_forest:
  "forest_symbols (map (\<lambda>(sym, freq). Node (Some sym) freq None None) H) = mset (map fst H)"
  unfolding forest_symbols_def by (induction H) (auto simp: case_prod_unfold)

lemma build_huffman_tree_many:
  assumes "length H \<ge> 2" and "distinct (map fst H)"
  shows "\<exists>t. build_huffman_tree H = Some (Inr (Some t)) \<and> proper t \<and> symbol t = None
             \<and> distinct (map fst (paths t)) \<and> set (map fst (paths t)) = fst ` set H"
proof -
  define leaves where "leaves = map (\<lambda>(sym, freq). Node (Some sym) freq None None) H"
  define heap0 where "heap0 = heapify leaves"
  have m: "mset heap0 = mset leaves" unfolding heap0_def by (rule heapify_mset)
  then have "length heap0 = length leaves" by (rule mset_eq_length)
  with assms(1) have ne: "heap0 \<noteq> []" by (auto simp: leaves_def)
  have "\<forall>x \<in> set leaves. proper x" by (auto simp: leaves_def)
  with mset_eq_setD [OF m] have pr: "\<forall>x \<in> set heap0. proper x" by simp
  have fs: "forest_symbols heap0 = mset (map fst H)"
    using m leaves_forest [of H] by (simp add: forest_symbols_mset leaves_def)
  from build_loop_result [OF ne pr] obtain t where
    bl: "build_loop heap0 = Some (Inr [t])" and pt: "proper t"
    and sy: "mset (map fst (paths t)) = forest_symbols heap0" by blast
  from sy fs have ms: "mset (map fst (paths t)) = mset (map fst H)" by simp
  from mset_eq_imp_distinct_iff [OF ms] assms(2) have d: "distinct (map fst (paths t))" by simp
  from mset_eq_setD [OF ms] have st: "set (map fst (paths t)) = fst ` set H" by simp
  from mset_eq_length [OF ms] assms(1) have two: "length (paths t) \<ge> 2" by simp
  have "symbol t = None"
  proof (cases "symbol t")
    case (Some s)
    from proper_leaf_paths [OF pt Some] two show ?thesis by simp
  qed simp
  moreover have "build_huffman_tree H = Some (Inr (Some t))"
    using assms(1) bl by (auto simp: build_huffman_tree_def leaves_def heap0_def)
  ultimately show ?thesis using pt d st by blast
qed

lemma replicate_all_same: "set xs \<subseteq> {s} \<Longrightarrow> replicate (length xs) s = xs"
  by (induction xs) auto

lemma round_trip_single:
  assumes "set data \<subseteq> {s}"
  shows "HuffmanCode_generate [(s, f)] = Some (Inr [(s, ''0'')])"
    and "build_huffman_tree [(s, f)] = Some (Inr (Some (Node (Some s) f None None)))"
    and "HuffmanCode_encode data [(s, ''0'')] = Inr (concat (map (\<lambda>_. ''0'') data))"
    and "HuffmanCode_decode (concat (map (\<lambda>_. ''0'') data)) (Some (Node (Some s) f None None)) = Inr data"
proof -
  show t: "build_huffman_tree [(s, f)] = Some (Inr (Some (Node (Some s) f None None)))"
    by (simp add: build_huffman_tree_def)
  show "HuffmanCode_generate [(s, f)] = Some (Inr [(s, ''0'')])"
    by (simp add: HuffmanCode_generate_def t)
  have "set data \<subseteq> dom (map_of [(s, ''0'')])" using assms by auto
  from encode_known [OF this] have A: "HuffmanCode_encode data [(s, ''0'')]
      = Inr (concat (map (\<lambda>x. the (map_of [(s, ''0'')] x)) data))" .
  have B: "map (\<lambda>x. the (map_of [(s, ''0'')] x)) data = map (\<lambda>_. ''0'') data"
    using assms by (intro map_cong) auto
  from A show "HuffmanCode_encode data [(s, ''0'')] = Inr (concat (map (\<lambda>_. ''0'') data))"
    unfolding B .
  have len: "length (concat (map (\<lambda>_. ''0'') data)) = length data"
    by (induction data) auto
  show "HuffmanCode_decode (concat (map (\<lambda>_. ''0'') data)) (Some (Node (Some s) f None None)) = Inr data"
  proof (cases "data = []")
    case True
    then show ?thesis by (simp add: HuffmanCode_decode_def)
  next
    case False
    then have "concat (map (\<lambda>_. ''0'') data) \<noteq> []" by (cases data) auto
    then show ?thesis
      using replicate_all_same [OF assms] by (simp add: HuffmanCode_decode_def len)
  qed
qed

text \<open>
  C2. For every frequency table with at least one entry (a dictionary: its keys are
  distinct) and every sequence of symbols of its alphabet: \<open>generate\<close> returns a code
  table, \<open>build_huffman_tree\<close> returns a tree, \<open>encode\<close> returns a bit string, and
  \<open>decode\<close> of that bit string with that tree returns the sequence.
\<close>

theorem huffman_round_trip:
  assumes "H \<noteq> []" and "distinct (map fst H)" and "set data \<subseteq> fst ` set H"
  shows "\<exists>codes tree bits.
           HuffmanCode_generate H = Some (Inr codes) \<and>
           build_huffman_tree H = Some (Inr tree) \<and>
           HuffmanCode_encode data codes = Inr bits \<and>
           HuffmanCode_decode bits tree = Inr data"
proof (cases "length H = 1")
  case True
  then obtain s f where H: "H = [(s, f)]" by (cases H) auto
  with assms(3) have "set data \<subseteq> {s}" by simp
  note rs = round_trip_single [OF this]
  from rs(1) [of f] rs(2) [of f] rs(3) rs(4) [of f] show ?thesis unfolding H by blast
next
  case False
  moreover from assms(1) have "length H \<noteq> 0" by simp
  ultimately have two: "length H \<ge> 2" by arith
  from build_huffman_tree_many [OF two assms(2)] obtain t where
    bt: "build_huffman_tree H = Some (Inr (Some t))" and pt: "proper t" and st: "symbol t = None"
    and d: "distinct (map fst (paths t))" and al: "set (map fst (paths t)) = fst ` set H" by blast
  define codes where "codes = generate_huffman_codes (Some t) [] []"
  have gen: "HuffmanCode_generate H = Some (Inr codes)"
    using assms(1) False bt by (simp add: HuffmanCode_generate_def codes_def)
  have look: "\<forall>s \<in> set data. \<exists>p. (s, p) \<in> set (paths t) \<and> map_of codes s = Some p"
  proof
    fix s assume "s \<in> set data"
    with assms(3) al have "s \<in> fst ` set (paths t)" by auto
    then obtain p where p: "(s, p) \<in> set (paths t)" by auto
    from fold_update_lookup [OF d p, of "[]" "[]"] have "map_of codes s = Some p"
      by (simp add: codes_def generate_paths [OF pt])
    with p show "\<exists>p. (s, p) \<in> set (paths t) \<and> map_of codes s = Some p" by blast
  qed
  then have dom: "set data \<subseteq> dom (map_of codes)" by auto
  define bits where "bits = concat (map (\<lambda>s. the (map_of codes s)) data)"
  from encode_known [OF dom] have enc: "HuffmanCode_encode data codes = Inr bits"
    by (simp add: bits_def)
  have dec: "HuffmanCode_decode bits (Some t) = Inr data"
  proof (cases "bits = []")
    case True
    have "data = []"
    proof (rule ccontr)
      assume "data \<noteq> []"
      then obtain s rest where ds: "data = s # rest" by (cases data) auto
      with look obtain p where "(s, p) \<in> set (paths t)" "map_of codes s = Some p" by auto
      with path_nonempty [OF pt st this(1)] True ds show False by (simp add: bits_def)
    qed
    with True show ?thesis by (simp add: HuffmanCode_decode_def)
  next
    case False
    with st have "HuffmanCode_decode bits (Some t) = HuffmanCode_decode_loop t t bits []"
      by (simp add: HuffmanCode_decode_def)
    also from decode_concat [OF pt st look, of "[]"] have "\<dots> = Inr data"
      unfolding bits_def by simp
    finally show ?thesis .
  qed
  from gen bt enc dec show ?thesis by blast
qed

text \<open>C2 at scenario S1: the table \<open>{a: 5, b: 2, c: 1}\<close> and the text \<open>abacab\<close>.\<close>

theorem huffman_round_trip_witness:
  "[(97 :: int, 5 :: int), (98, 2), (99, 1)] \<noteq> []
   \<and> distinct (map fst [(97 :: int, 5 :: int), (98, 2), (99, 1)])
   \<and> set [97, 98, 97, 99, 97, 98 :: int] \<subseteq> fst ` set [(97 :: int, 5 :: int), (98, 2), (99, 1)]
   \<and> (\<exists>codes tree bits.
           HuffmanCode_generate [(97 :: int, 5), (98, 2), (99, 1)] = Some (Inr codes) \<and>
           build_huffman_tree [(97 :: int, 5), (98, 2), (99, 1)] = Some (Inr tree) \<and>
           HuffmanCode_encode [97, 98, 97, 99, 97, 98] codes = Inr bits \<and>
           HuffmanCode_decode bits tree = Inr [97, 98, 97, 99, 97, 98])"
proof -
  have h1: "[(97 :: int, 5 :: int), (98, 2), (99, 1)] \<noteq> []" by simp
  have h2: "distinct (map fst [(97 :: int, 5 :: int), (98, 2), (99, 1)])" by simp
  have h3: "set [97, 98, 97, 99, 97, 98 :: int] \<subseteq> fst ` set [(97 :: int, 5 :: int), (98, 2), (99, 1)]"
    by simp
  from huffman_round_trip [OF h1 h2 h3] h1 h2 h3 show ?thesis by blast
qed

end
